theory Spec2Isabelle
  imports Complex_Main "HOL-Library.AList"
begin

section \<open>Python values\<close>

text \<open>
  The section processor (\<^verbatim>\<open>src/section_processor.py\<close>) works on the values that
  \<^verbatim>\<open>json.load\<close> returns: dictionaries, lists, strings, numbers, booleans and
  \<^verbatim>\<open>None\<close>. A dictionary is an association list in insertion order, looked up with
  \<^const>\<open>map_of\<close> and written with \<^const>\<open>AList.update\<close> (an existing key keeps its
  place, a new key goes to the end, as in Python). Numbers are integers: the coordinates
  are pixel counts, and a JSON number with a fractional part is outside this model.
  Every exception the code can raise on such a value is a branch that returns
  \<open>Inl\<close> of the exception's class.
\<close>

datatype py_error =
  KeyError | TypeError | AttributeError | ZeroDivisionError | OverflowError | ValueError
  | OSError
  | JSONDecodeError

datatype json =
  JNull | JBool bool | JInt int | JStr string | JList "json list"
  | JObj "(string \<times> json) list"

text \<open>\<^verbatim>\<open>obj[key]\<close> for a string key: only a dictionary can be indexed so.\<close>

fun py_getitem :: "json \<Rightarrow> string \<Rightarrow> py_error + json" where
  "py_getitem (JObj kvs) k = (case map_of kvs k of None \<Rightarrow> Inl KeyError | Some v \<Rightarrow> Inr v)"
| "py_getitem _ k = Inl TypeError"

text \<open>\<^verbatim>\<open>a in b\<close> for strings: a substring test.\<close>

fun str_contains :: "string \<Rightarrow> string \<Rightarrow> bool" where
  "str_contains p [] = (p = [])"
| "str_contains p (c # cs) = (take (length p) (c # cs) = p \<or> str_contains p cs)"

text \<open>
  \<^verbatim>\<open>field in value\<close>: a key test on a dictionary, an element test on a list, a substring
  test on a string, and a \<^verbatim>\<open>TypeError\<close> on a number, a boolean or \<^verbatim>\<open>None\<close>.
\<close>

fun py_in :: "string \<Rightarrow> json \<Rightarrow> py_error + bool" where
  "py_in k (JObj kvs) = Inr (map_of kvs k \<noteq> None)"
| "py_in k (JList vs) = Inr (JStr k \<in> set vs)"
| "py_in k (JStr s) = Inr (str_contains k s)"
| "py_in k _ = Inl TypeError"

text \<open>
  The integer a value stands for in arithmetic and comparisons (\<^verbatim>\<open>bool\<close> is a subclass
  of \<^verbatim>\<open>int\<close>); \<^verbatim>\<open>min\<close>, \<^verbatim>\<open>max\<close> and \<^verbatim>\<open>-\<close> against an integer raise
  \<^verbatim>\<open>TypeError\<close> on everything else.
\<close>

fun as_int :: "json \<Rightarrow> py_error + int" where
  "as_int (JInt n) = Inr n"
| "as_int (JBool b) = Inr (if b then 1 else 0)"
| "as_int _ = Inl TypeError"

subsection \<open>Strings and number formatting\<close>

text \<open>The constants of Python's \<^verbatim>\<open>string\<close> module.\<close>

definition ascii_uppercase :: string where
  "ascii_uppercase = ''ABCDEFGHIJKLMNOPQRSTUVWXYZ''"

definition ascii_lowercase :: string where
  "ascii_lowercase = ''abcdefghijklmnopqrstuvwxyz''"

definition ascii_digits :: string where
  "ascii_digits = ''0123456789''"

text \<open>\<^verbatim>\<open>str.lower\<close> on ASCII letters; other characters are unchanged.\<close>

definition lower_char :: "char \<Rightarrow> char" where
  "lower_char c =
     (case map_of (zip ascii_uppercase ascii_lowercase) c of Some d \<Rightarrow> d | None \<Rightarrow> c)"

definition str_lower :: "string \<Rightarrow> string" where
  "str_lower s = map lower_char s"

text \<open>\<^verbatim>\<open>s.replace(old, new)\<close> for a one-character \<^verbatim>\<open>old\<close>.\<close>

definition str_replace_char :: "char \<Rightarrow> string \<Rightarrow> string \<Rightarrow> string" where
  "str_replace_char old new s = concat (map (\<lambda>c. if c = old then new else [c]) s)"

definition digit_char :: "nat \<Rightarrow> char" where
  "digit_char d = ascii_digits ! d"

fun digits :: "nat \<Rightarrow> string" where
  "digits n = (if n < 10 then [digit_char n] else digits (n div 10) @ [digit_char (n mod 10)])"

declare digits.simps [simp del]

definition zfill :: "nat \<Rightarrow> string \<Rightarrow> string" where
  "zfill w s = replicate (w - length s) CHR ''0'' @ s"

text \<open>The format specification \<^verbatim>\<open>04d\<close>: at least four characters, the sign included.\<close>

definition format_04d :: "int \<Rightarrow> string" where
  "format_04d n =
     (if n < 0 then CHR ''-'' # zfill 3 (digits (nat (- n))) else zfill 4 (digits (nat n)))"

text \<open>The last component of a path (\<^verbatim>\<open>Path.name\<close>).\<close>

definition path_name :: "string \<Rightarrow> string" where
  "path_name p = rev (takeWhile (\<lambda>c. c \<noteq> CHR ''/'') (rev p))"

subsection \<open>Floating-point numbers\<close>

text \<open>
  A Python \<^verbatim>\<open>float\<close> is an IEEE 754 double: a real number \<open>m * 2 ^ e\<close> with
  \<open>\<bar>m\<bar> < 2 ^ 53\<close> and \<open>e \<ge> - 1074\<close>, of magnitude below \<open>2 ^ 1024\<close>. An operation
  returns its exact result rounded to the nearest double, a tie going to the even
  significand. \<open>rne\<close> rounds a real number to the nearest integer, ties to even;
  \<open>expo x\<close> is the exponent \<open>e\<close> with \<open>2 ^ e \<le> \<bar>x\<bar> < 2 ^ (e + 1)\<close>; \<open>ulp x\<close> is the
  distance between neighbouring doubles at \<open>x\<close> (constant below \<open>2 ^ - 1022\<close>, where the
  doubles are subnormal); \<open>fl x\<close> is \<open>x\<close> rounded to a double, without a bound on the
  exponent; and a value is a finite double when its rounding stays below \<open>2 ^ 1024\<close>.
\<close>

definition rne :: "real \<Rightarrow> int" where
  "rne y =
     (let f = \<lfloor>y\<rfloor>; d = y - of_int f
      in if d < 1 / 2 then f else if 1 / 2 < d then f + 1 else if even f then f else f + 1)"

definition expo :: "real \<Rightarrow> int" where
  "expo x = \<lfloor>log 2 \<bar>x\<bar>\<rfloor>"

definition ulp :: "real \<Rightarrow> real" where
  "ulp x = 2 powi (max (expo x) (- 1022) - 52)"

definition fl :: "real \<Rightarrow> real" where
  "fl x = (if x = 0 then 0 else of_int (rne (x / ulp x)) * ulp x)"

definition finite_double :: "real \<Rightarrow> bool" where
  "finite_double x = (\<bar>fl x\<bar> < 2 ^ 1024)"

text \<open>
  \<^verbatim>\<open>a / b\<close> on integers: the quotient correctly rounded, \<^verbatim>\<open>ZeroDivisionError\<close> for a
  zero divisor, \<^verbatim>\<open>OverflowError\<close> when the quotient is too large for a float.
\<close>

definition py_truediv :: "int \<Rightarrow> int \<Rightarrow> py_error + real" where
  "py_truediv a b =
     (if b = 0 then Inl ZeroDivisionError
      else if finite_double (of_int a / of_int b) then Inr (fl (of_int a / of_int b))
      else Inl OverflowError)"

text \<open>\<^verbatim>\<open>int(x)\<close> on a float truncates towards zero.\<close>

definition py_int :: "real \<Rightarrow> int" where
  "py_int x = (if 0 \<le> x then \<lfloor>x\<rfloor> else \<lceil>x\<rceil>)"

text \<open>
  \<^verbatim>\<open>int(n * x)\<close> for an integer \<open>n\<close> and a float \<open>x\<close>. The integer is converted to a
  float, which raises \<^verbatim>\<open>OverflowError\<close> when it is too large; the product is rounded;
  a product too large for a float is an infinity, and \<^verbatim>\<open>int\<close> of an infinity raises
  \<^verbatim>\<open>OverflowError\<close> too.
\<close>

definition py_int_of_product :: "int \<Rightarrow> real \<Rightarrow> py_error + int" where
  "py_int_of_product n x =
     (if \<not> finite_double (of_int n) then Inl OverflowError
      else if \<not> finite_double (fl (of_int n) * x) then Inl OverflowError
      else Inr (py_int (fl (fl (of_int n) * x))))"

text \<open>
  \<^verbatim>\<open>round(x, 2)\<close> on a float: the value of \<open>x\<close> rounded to the nearest multiple of
  1/100 (ties to even), and that decimal number rounded to the nearest double.
\<close>

definition py_round2 :: "real \<Rightarrow> real" where
  "py_round2 x = fl (of_int (rne (x * 100)) / 100)"

section \<open>The processor's state and its environment\<close>

text \<open>
  What \<^verbatim>\<open>processing_stats["errors"]\<close> collects. The source formats each entry as a
  string; the entry keeps the parts the string is formatted from.
\<close>

datatype log_entry =
  MissingRequiredField string string
  | SectionsNotList string
  | MissingSectionField string nat string
  | NoMatchingScreenshot json
  | ErrorLoading string py_error
  | ErrorProcessing json py_error

text \<open>
  The fields of \<^verbatim>\<open>SectionProcessor\<close> that the pipeline writes. \<^verbatim>\<open>load_annotations\<close>
  only ever appends dictionaries to \<^verbatim>\<open>self.annotations\<close> (it has stored two keys in
  each), so the field holds dictionaries. \<^verbatim>\<open>section_types\<close> is a
  \<^verbatim>\<open>defaultdict(list)\<close>.
\<close>

record processor =
  annotations :: "(string \<times> json) list list"
  sections_catalog :: "json list"
  section_types :: "(string \<times> json list) list"
  files_processed :: int
  sections_extracted :: int
  section_types_found :: "string set"
  errors :: "log_entry list"

definition init_processor :: processor where
  "init_processor =
     \<lparr>annotations = [], sections_catalog = [], section_types = [], files_processed = 0,
      sections_extracted = 0, section_types_found = {}, errors = []\<rparr>"

text \<open>
  The images made from a screenshot for one section (the crop of a box, and an image
  resized to a size), the calls into the imaging library made for one section (the crop
  of a box, the resizing of an image to a size, the saving of an image to a file), and
  the environment of a run:
  which names exist in the screenshot directory, what opening a screenshot gives (its
  size, or the exception raised), whether a library call made for a section raises, and
  the clock read when the section with a given sequence number is cataloged. The library
  and the file system are not part of the repository; their behaviour is a parameter.
\<close>

datatype pil_image = Cropped "int \<times> int \<times> int \<times> int" | Resized pil_image "int \<times> int"

datatype pil_call =
  PilCrop "int \<times> int \<times> int \<times> int" | PilResize pil_image "int \<times> int" | PilSave pil_image string

record world =
  screenshot_exists :: "string \<Rightarrow> bool"
  image_open :: "string \<Rightarrow> py_error + (int \<times> int)"
  pil_raises :: "string \<Rightarrow> pil_call \<Rightarrow> py_error option"
  now_iso :: "int \<Rightarrow> string"

section \<open>Phase 1: loading and validating annotations\<close>

text \<open>
  The loop \<^verbatim>\<open>for field in required_fields: if field not in obj\<close>: the first required
  field that is not in the value, or the exception of the membership test.
\<close>

fun first_missing :: "string list \<Rightarrow> json \<Rightarrow> py_error + string option" where
  "first_missing [] obj = Inr None"
| "first_missing (field # rest) obj =
     (case py_in field obj of
        Inl e \<Rightarrow> Inl e
      | Inr True \<Rightarrow> first_missing rest obj
      | Inr False \<Rightarrow> Inr (Some field))"

definition required_fields :: "string list" where
  "required_fields = [''source_image'', ''image_dimensions'', ''sections'']"

definition required_section_fields :: "string list" where
  "required_section_fields = [''id'', ''type'', ''coordinates'']"

text \<open>The loop over \<^verbatim>\<open>enumerate(annotation["sections"])\<close>, from index \<open>i\<close> on.\<close>

fun validate_sections ::
  "nat \<Rightarrow> json list \<Rightarrow> string \<Rightarrow> processor \<Rightarrow> py_error + (bool \<times> processor)" where
  "validate_sections i [] file_name st = Inr (True, st)"
| "validate_sections i (section # rest) file_name st =
     (case first_missing required_section_fields section of
        Inl e \<Rightarrow> Inl e
      | Inr (Some field) \<Rightarrow>
          Inr (False, st\<lparr>errors := errors st @ [MissingSectionField field i file_name]\<rparr>)
      | Inr None \<Rightarrow> validate_sections (Suc i) rest file_name st)"

text \<open>
  \<^verbatim>\<open>validate_annotation\<close>: the verdict and the state, or the exception that a
  membership test or \<^verbatim>\<open>annotation["sections"]\<close> raises. Nothing has been written to
  the state when one is raised.
\<close>

definition validate_annotation ::
  "json \<Rightarrow> string \<Rightarrow> processor \<Rightarrow> py_error + (bool \<times> processor)" where
  "validate_annotation annotation file_name st =
     (case first_missing required_fields annotation of
        Inl e \<Rightarrow> Inl e
      | Inr (Some field) \<Rightarrow>
          Inr (False, st\<lparr>errors := errors st @ [MissingRequiredField field file_name]\<rparr>)
      | Inr None \<Rightarrow>
          (case py_getitem annotation ''sections'' of
             Inl e \<Rightarrow> Inl e
           | Inr (JList sections) \<Rightarrow> validate_sections 0 sections file_name st
           | Inr _ \<Rightarrow> Inr (False, st\<lparr>errors := errors st @ [SectionsNotList file_name]\<rparr>)))"

text \<open>
  \<^verbatim>\<open>find_matching_screenshot\<close>: the exact name, then the name without spaces. Joining a
  path with a value that is not a string raises \<^verbatim>\<open>TypeError\<close>.
\<close>

definition find_matching_screenshot :: "world \<Rightarrow> json \<Rightarrow> py_error + string option" where
  "find_matching_screenshot w source_image =
     (case source_image of
        JStr name \<Rightarrow>
          if screenshot_exists w name then Inr (Some (''store_screenshots/'' @ name))
          else let alt_name = str_replace_char CHR '' '' [] name in
            if screenshot_exists w alt_name then Inr (Some (''store_screenshots/'' @ alt_name))
            else Inr None
      | _ \<Rightarrow> Inl TypeError)"

text \<open>
  The body of the loop of \<^verbatim>\<open>load_annotations\<close> for one annotation file: its name and
  what \<^verbatim>\<open>json.load\<close> gives for it (the decoded value, or the exception of opening or
  decoding). Every exception ends in the handler, which logs it.
\<close>

definition load_annotation_file ::
  "world \<Rightarrow> string \<times> (py_error + json) \<Rightarrow> processor \<Rightarrow> processor" where
  "load_annotation_file w ann_file st =
     (let file_name = fst ann_file;
          failed = (\<lambda>e. st\<lparr>errors := errors st @ [ErrorLoading file_name e]\<rparr>)
      in case snd ann_file of
        Inl e \<Rightarrow> failed e
      | Inr annotation \<Rightarrow>
         (case validate_annotation annotation file_name st of
            Inl e \<Rightarrow> failed e
          | Inr (False, st1) \<Rightarrow> st1
          | Inr (True, st1) \<Rightarrow>
             (case py_getitem annotation ''source_image'' of
                Inl e \<Rightarrow> failed e
              | Inr source_image \<Rightarrow>
                 (case find_matching_screenshot w source_image of
                    Inl e \<Rightarrow> failed e
                  | Inr None \<Rightarrow> st1\<lparr>errors := errors st1 @ [NoMatchingScreenshot source_image]\<rparr>
                  | Inr (Some screenshot_path) \<Rightarrow>
                     (case annotation of
                        JObj kvs \<Rightarrow>
                          st1\<lparr>annotations := annotations st1 @
                                 [AList.update ''annotation_file'' (JStr (''annotations/'' @ file_name))
                                    (AList.update ''screenshot_path'' (JStr screenshot_path) kvs)],
                              files_processed := files_processed st1 + 1\<rparr>
                      | _ \<Rightarrow> failed TypeError)))))"

fun load_annotations ::
  "world \<Rightarrow> (string \<times> (py_error + json)) list \<Rightarrow> processor \<Rightarrow> processor" where
  "load_annotations w [] st = st"
| "load_annotations w (ann_file # annotation_files) st =
     load_annotations w annotation_files (load_annotation_file w ann_file st)"

section \<open>Phase 2: cropping sections\<close>

text \<open>
  \<^verbatim>\<open>generate_section_id\<close>: the type tag in lower case with each space replaced by an
  underscore, an underscore, and the counter in format \<^verbatim>\<open>04d\<close>. The pure part, on a
  type tag that is a string:
\<close>

definition format_section_id :: "string \<Rightarrow> int \<Rightarrow> string" where
  "format_section_id section_type counter =
     str_replace_char CHR '' '' ''_'' (str_lower section_type) @ ''_'' @ format_04d counter"

text \<open>
  On a section: \<^verbatim>\<open>section["type"]\<close> can raise, and a value that is not a string has no
  method \<^verbatim>\<open>lower\<close>.
\<close>

definition generate_section_id :: "json \<Rightarrow> int \<Rightarrow> py_error + string" where
  "generate_section_id section counter =
     (case py_getitem section ''type'' of
        Inl e \<Rightarrow> Inl e
      | Inr (JStr section_type) \<Rightarrow> Inr (format_section_id section_type counter)
      | Inr _ \<Rightarrow> Inl AttributeError)"

text \<open>
  \<^verbatim>\<open>calculate_resize\<close> (lines 262 to 273). The two quotients are floats, the scale is
  the least of them and \<^verbatim>\<open>1.0\<close>, and each new dimension is \<^verbatim>\<open>int\<close> of the float
  product of the dimension and the scale.
\<close>

definition calculate_resize :: "int \<times> int \<Rightarrow> int \<times> int \<Rightarrow> py_error + int \<times> int" where
  "calculate_resize original_size max_size =
     (let width = fst original_size; height = snd original_size;
          max_width = fst max_size; max_height = snd max_size
      in case py_truediv max_width width of
           Inl e \<Rightarrow> Inl e
         | Inr a \<Rightarrow>
            (case py_truediv max_height height of
               Inl e \<Rightarrow> Inl e
             | Inr b \<Rightarrow>
                 let scale = min a (min b 1) in
                 (case py_int_of_product width scale of
                    Inl e \<Rightarrow> Inl e
                  | Inr new_width \<Rightarrow>
                     (case py_int_of_product height scale of
                        Inl e \<Rightarrow> Inl e
                      | Inr new_height \<Rightarrow> Inr (new_width, new_height)))))"

text \<open>
  Lines 214 to 218 of \<^verbatim>\<open>crop_section_image\<close>: the coordinates \<open>(x, y, width, height)\<close>
  brought within an image of size \<open>(img_width, img_height)\<close>.
\<close>

definition clamp_coords :: "int \<times> int \<Rightarrow> int \<times> int \<times> int \<times> int \<Rightarrow> int \<times> int \<times> int \<times> int" where
  "clamp_coords img_size c =
     (case (img_size, c) of ((img_width, img_height), (x0, y0, width0, height0)) \<Rightarrow>
        let x = max 0 (min x0 img_width);
            y = max 0 (min y0 img_height);
            width = min width0 (img_width - x);
            height = min height0 (img_height - y)
        in (x, y, width, height))"

text \<open>
  The four reads \<^verbatim>\<open>coords["x"]\<close>, \<^verbatim>\<open>coords["y"]\<close>, \<^verbatim>\<open>coords["width"]\<close>,
  \<^verbatim>\<open>coords["height"]\<close> and the use of each value as a number.
\<close>

definition read_coords :: "json \<Rightarrow> py_error + int \<times> int \<times> int \<times> int" where
  "read_coords coords =
     (case py_getitem coords ''x'' of Inl e \<Rightarrow> Inl e | Inr jx \<Rightarrow>
      case py_getitem coords ''y'' of Inl e \<Rightarrow> Inl e | Inr jy \<Rightarrow>
      case py_getitem coords ''width'' of Inl e \<Rightarrow> Inl e | Inr jw \<Rightarrow>
      case py_getitem coords ''height'' of Inl e \<Rightarrow> Inl e | Inr jh \<Rightarrow>
      case as_int jx of Inl e \<Rightarrow> Inl e | Inr x \<Rightarrow>
      case as_int jy of Inl e \<Rightarrow> Inl e | Inr y \<Rightarrow>
      case as_int jw of Inl e \<Rightarrow> Inl e | Inr width \<Rightarrow>
      case as_int jh of Inl e \<Rightarrow> Inl e | Inr height \<Rightarrow> Inr (x, y, width, height))"

definition dimensions_json :: "int \<times> int \<Rightarrow> json" where
  "dimensions_json d = JObj [(''width'', JInt (fst d)), (''height'', JInt (snd d))]"

definition full_path :: "string \<Rightarrow> string" where
  "full_path filename_base = ''images/full/'' @ filename_base @ ''.png''"

definition medium_path :: "string \<Rightarrow> string" where
  "medium_path filename_base = ''images/medium/'' @ filename_base @ ''_medium.png''"

definition thumb_path :: "string \<Rightarrow> string" where
  "thumb_path filename_base = ''images/thumbnails/'' @ filename_base @ ''_thumb.png''"

text \<open>A call into the imaging library, in sequence with what follows it.\<close>

definition pil_then ::
  "world \<Rightarrow> string \<Rightarrow> pil_call \<Rightarrow> (py_error + 'a) \<Rightarrow> py_error + 'a" where
  "pil_then w section_id call rest =
     (case pil_raises w section_id call of Some e \<Rightarrow> Inl e | None \<Rightarrow> rest)"

text \<open>
  Lines 226 to 245: the crop of the box is saved as the full-size file; the medium image
  is the crop resized to the medium size, and the thumbnail is the crop resized to the
  thumbnail size, both sizes computed from the size of the crop (\<open>cropped_size\<close>). The
  result is the pair of the medium and the thumbnail sizes.
\<close>

definition save_derivatives ::
  "world \<Rightarrow> string \<Rightarrow> string \<Rightarrow> int \<times> int \<times> int \<times> int \<Rightarrow> int \<times> int
     \<Rightarrow> py_error + (int \<times> int) \<times> (int \<times> int)" where
  "save_derivatives w section_id filename_base box cropped_size =
     pil_then w section_id (PilCrop box)
      (pil_then w section_id (PilSave (Cropped box) (full_path filename_base))
        (case calculate_resize cropped_size (400, 300) of
           Inl e \<Rightarrow> Inl e
         | Inr medium_size \<Rightarrow>
             pil_then w section_id (PilResize (Cropped box) medium_size)
              (pil_then w section_id
                 (PilSave (Resized (Cropped box) medium_size) (medium_path filename_base))
                (case calculate_resize cropped_size (200, 150) of
                   Inl e \<Rightarrow> Inl e
                 | Inr thumb_size \<Rightarrow>
                     pil_then w section_id (PilResize (Cropped box) thumb_size)
                      (pil_then w section_id
                         (PilSave (Resized (Cropped box) thumb_size) (thumb_path filename_base))
                        (Inr (medium_size, thumb_size)))))))"

text \<open>The dictionary that \<^verbatim>\<open>crop_section_image\<close> returns (lines 247 to 256).\<close>

definition cropped_files_json ::
  "string \<Rightarrow> int \<times> int \<Rightarrow> int \<times> int \<Rightarrow> int \<times> int \<Rightarrow> json" where
  "cropped_files_json filename_base original medium_size thumb_size =
     JObj [(''full'', JStr (full_path filename_base)),
           (''medium'', JStr (medium_path filename_base)),
           (''thumbnail'', JStr (thumb_path filename_base)),
           (''dimensions'', JObj
              [(''original'', dimensions_json original),
               (''medium'', dimensions_json medium_size),
               (''thumbnail'', dimensions_json thumb_size)])]"

text \<open>
  The body of the \<^verbatim>\<open>try\<close> of \<^verbatim>\<open>crop_section_image\<close>, after the coordinates are
  read and clamped to \<open>(x, y, width, height)\<close>: \<open>Inr None\<close> is the return on a crop of
  no width or no height, \<open>Inr (Some d)\<close> the dictionary returned once the three images
  are saved, \<open>Inl\<close> an exception.
\<close>

definition crop_clamped ::
  "world \<Rightarrow> string \<Rightarrow> string \<Rightarrow> int \<times> int \<times> int \<times> int \<Rightarrow> py_error + json option" where
  "crop_clamped w section_id section_type c =
     (let x = fst c; y = fst (snd c); width = fst (snd (snd c)); height = snd (snd (snd c)) in
      if width \<le> 0 \<or> height \<le> 0 then Inr None
      else
        let box = (x, y, x + width, y + height);
            filename_base = section_id @ ''_'' @ section_type
        in case save_derivatives w section_id filename_base box (width, height) of
             Inl e \<Rightarrow> Inl e
           | Inr sizes \<Rightarrow>
               Inr (Some (cropped_files_json filename_base (width, height) (fst sizes) (snd sizes))))"

definition crop_section_image_body ::
  "world \<Rightarrow> int \<times> int \<Rightarrow> json \<Rightarrow> string \<Rightarrow> string \<Rightarrow> py_error + json option" where
  "crop_section_image_body w img_size coords section_id section_type =
     (case read_coords coords of
        Inl e \<Rightarrow> Inl e
      | Inr c \<Rightarrow> crop_clamped w section_id section_type (clamp_coords img_size c))"

text \<open>
  \<^verbatim>\<open>crop_section_image\<close>: the handler prints the exception and returns \<^verbatim>\<open>None\<close>. The
  function reads and writes nothing of the processor's state; what it prints is not
  modelled.
\<close>

definition crop_section_image ::
  "world \<Rightarrow> int \<times> int \<Rightarrow> json \<Rightarrow> string \<Rightarrow> string \<Rightarrow> json option" where
  "crop_section_image w img_size coords section_id section_type =
     (case crop_section_image_body w img_size coords section_id section_type of
        Inl e \<Rightarrow> None
      | Inr r \<Rightarrow> r)"

text \<open>\<^verbatim>\<open>d[key].append(v)\<close> on a \<^verbatim>\<open>defaultdict(list)\<close>.\<close>

definition defaultdict_append :: "'k \<Rightarrow> 'v \<Rightarrow> ('k \<times> 'v list) list \<Rightarrow> ('k \<times> 'v list) list" where
  "defaultdict_append k v d =
     AList.update k ((case map_of d k of None \<Rightarrow> [] | Some vs \<Rightarrow> vs) @ [v]) d"

text \<open>
  The four keys that \<^verbatim>\<open>crop_sections\<close> stores in a section whose crop succeeded
  (lines 178 to 181).
\<close>

definition add_metadata ::
  "(string \<times> json) list \<Rightarrow> string \<Rightarrow> string \<Rightarrow> json \<Rightarrow> string \<Rightarrow> (string \<times> json) list" where
  "add_metadata kvs section_id source_file cropped_section date =
     AList.update ''processing_date'' (JStr date)
       (AList.update ''cropped_files'' cropped_section
          (AList.update ''source_file'' (JStr source_file)
             (AList.update ''unique_id'' (JStr section_id) kvs)))"

text \<open>
  Lines 178 to 189: a section whose crop succeeded gets its four keys, goes to the end
  of the flat catalog and of the list of its type, and the counter advances.
\<close>

definition catalog_section ::
  "world \<Rightarrow> string \<Rightarrow> (string \<times> json) list \<Rightarrow> string \<Rightarrow> string \<Rightarrow> json \<Rightarrow> processor \<times> int
     \<Rightarrow> processor \<times> int" where
  "catalog_section w source_file kvs section_type section_id cropped_section sc =
     (let st = fst sc; section_counter = snd sc;
          section' = JObj (add_metadata kvs section_id source_file cropped_section
                             (now_iso w section_counter))
      in (st\<lparr>sections_catalog := sections_catalog st @ [section'],
             section_types := defaultdict_append section_type section' (section_types st),
             sections_extracted := sections_extracted st + 1,
             section_types_found := insert section_type (section_types_found st)\<rparr>,
          section_counter + 1))"

text \<open>
  The body of the loop over the sections of one annotation (lines 168 to 189), on the
  processor's state and the local \<^verbatim>\<open>section_counter\<close>. \<open>Inl\<close> is an exception that
  leaves the loop; it can only be raised before anything is written. A section that is
  not a dictionary, or whose type is not a string, has raised in
  \<^verbatim>\<open>generate_section_id\<close>.
\<close>

fun process_section_typed ::
  "world \<Rightarrow> string \<Rightarrow> int \<times> int \<Rightarrow> json \<Rightarrow> json \<Rightarrow> string \<Rightarrow> json \<Rightarrow> processor \<times> int
     \<Rightarrow> py_error + processor \<times> int" where
  "process_section_typed w source_file img_size (JObj kvs) (JStr section_type) section_id coords sc =
     (case crop_section_image w img_size coords section_id section_type of
        None \<Rightarrow> Inr sc
      | Some cropped_section \<Rightarrow>
          Inr (catalog_section w source_file kvs section_type section_id cropped_section sc))"
| "process_section_typed w source_file img_size section ty section_id coords sc = Inl TypeError"

definition process_section ::
  "world \<Rightarrow> string \<Rightarrow> int \<times> int \<Rightarrow> json \<Rightarrow> processor \<times> int \<Rightarrow> py_error + processor \<times> int" where
  "process_section w source_file img_size section sc =
     (case generate_section_id section (snd sc) of
        Inl e \<Rightarrow> Inl e
      | Inr section_id \<Rightarrow>
         (case py_getitem section ''coordinates'' of
            Inl e \<Rightarrow> Inl e
          | Inr coords \<Rightarrow>
             (case py_getitem section ''type'' of
                Inl e \<Rightarrow> Inl e
              | Inr ty \<Rightarrow>
                  process_section_typed w source_file img_size section ty section_id coords sc)))"

fun process_sections ::
  "world \<Rightarrow> string \<Rightarrow> int \<times> int \<Rightarrow> json list \<Rightarrow> processor \<times> int
     \<Rightarrow> py_error option \<times> processor \<times> int" where
  "process_sections w source_file img_size [] sc = (None, sc)"
| "process_sections w source_file img_size (section # rest) sc =
     (case process_section w source_file img_size section sc of
        Inl e \<Rightarrow> (Some e, sc)
      | Inr sc' \<Rightarrow> process_sections w source_file img_size rest sc')"

text \<open>What a \<^verbatim>\<open>for\<close> loop iterates over: the elements of a list, the keys of a
  dictionary, the characters of a string; other values are not iterable.\<close>

fun py_iter :: "json \<Rightarrow> py_error + json list" where
  "py_iter (JList vs) = Inr vs"
| "py_iter (JObj kvs) = Inr (map (\<lambda>kv. JStr (fst kv)) kvs)"
| "py_iter (JStr s) = Inr (map (\<lambda>c. JStr [c]) s)"
| "py_iter _ = Inl TypeError"

text \<open>\<^verbatim>\<open>Path(v)\<close>: only a string makes a path.\<close>

fun as_path :: "json \<Rightarrow> py_error + string" where
  "as_path (JStr p) = Inr p"
| "as_path _ = Inl TypeError"

text \<open>\<^verbatim>\<open>annotation.get('source_image', 'unknown')\<close>.\<close>

definition source_image_or_unknown :: "(string \<times> json) list \<Rightarrow> json" where
  "source_image_or_unknown annotation =
     (case map_of annotation ''source_image'' of Some v \<Rightarrow> v | None \<Rightarrow> JStr ''unknown'')"

text \<open>The handler of line 191: the exception goes to the error log.\<close>

definition processing_failed ::
  "(string \<times> json) list \<Rightarrow> py_error \<Rightarrow> processor \<times> int \<Rightarrow> processor \<times> int" where
  "processing_failed annotation e sc =
     ((fst sc)\<lparr>errors := errors (fst sc) @
                 [ErrorProcessing (source_image_or_unknown annotation) e]\<rparr>, snd sc)"

text \<open>
  The \<^verbatim>\<open>try\<close> of lines 157 to 189: the path of the screenshot, the opened image (its
  size), and the loop over the sections. The result is the exception, if one was raised,
  and the state and counter as the sections cataloged before it left them.
\<close>

definition process_annotation_body ::
  "world \<Rightarrow> (string \<times> json) list \<Rightarrow> processor \<times> int \<Rightarrow> py_error option \<times> processor \<times> int" where
  "process_annotation_body w annotation sc =
     (case py_getitem (JObj annotation) ''screenshot_path'' of
        Inl e \<Rightarrow> (Some e, sc)
      | Inr p \<Rightarrow>
         (case as_path p of
            Inl e \<Rightarrow> (Some e, sc)
          | Inr screenshot_path \<Rightarrow>
             (case image_open w screenshot_path of
                Inl e \<Rightarrow> (Some e, sc)
              | Inr img_size \<Rightarrow>
                 (case py_getitem (JObj annotation) ''sections'' of
                    Inl e \<Rightarrow> (Some e, sc)
                  | Inr sections \<Rightarrow>
                     (case py_iter sections of
                        Inl e \<Rightarrow> (Some e, sc)
                      | Inr secs \<Rightarrow>
                          process_sections w (path_name screenshot_path) img_size secs sc)))))"

text \<open>
  The body of the loop over the annotations (lines 156 to 194). What the sections
  cataloged before an exception wrote stays written.
\<close>

definition process_annotation ::
  "world \<Rightarrow> (string \<times> json) list \<Rightarrow> processor \<times> int \<Rightarrow> processor \<times> int" where
  "process_annotation w annotation sc =
     (case process_annotation_body w annotation sc of
        (None, sc') \<Rightarrow> sc'
      | (Some e, sc') \<Rightarrow> processing_failed annotation e sc')"

fun crop_annotations ::
  "world \<Rightarrow> (string \<times> json) list list \<Rightarrow> processor \<times> int \<Rightarrow> processor \<times> int" where
  "crop_annotations w [] sc = sc"
| "crop_annotations w (annotation # rest) sc =
     crop_annotations w rest (process_annotation w annotation sc)"

text \<open>\<^verbatim>\<open>crop_sections\<close>: the counter starts at 1 and is local to the call.\<close>

definition crop_sections :: "world \<Rightarrow> processor \<Rightarrow> processor" where
  "crop_sections w st = fst (crop_annotations w (annotations st) (st, 1))"

section \<open>Phase 3: pattern analysis\<close>

text \<open>Line 300: \<^verbatim>\<open>round(width / height, 2) if height > 0 else 0\<close>.\<close>

definition aspect_ratio :: "int \<Rightarrow> int \<Rightarrow> py_error + real" where
  "aspect_ratio width height =
     (if height > 0
      then (case py_truediv width height of Inl e \<Rightarrow> Inl e | Inr q \<Rightarrow> Inr (py_round2 q))
      else Inr 0)"

text \<open>
  Lines 296 to 300 for one section: its pair \<open>(width, height)\<close>, its aspect ratio and its
  area, read from \<^verbatim>\<open>section["coordinates"]\<close>.
\<close>

definition section_measures :: "json \<Rightarrow> py_error + (int \<times> int) \<times> real \<times> int" where
  "section_measures section =
     (case py_getitem section ''coordinates'' of Inl e \<Rightarrow> Inl e | Inr coords \<Rightarrow>
     (case py_getitem coords ''width'' of Inl e \<Rightarrow> Inl e | Inr jw \<Rightarrow>
     (case py_getitem coords ''height'' of Inl e \<Rightarrow> Inl e | Inr jh \<Rightarrow>
     (case as_int jw of Inl e \<Rightarrow> Inl e | Inr width \<Rightarrow>
     (case as_int jh of Inl e \<Rightarrow> Inl e | Inr height \<Rightarrow>
     (case aspect_ratio width height of Inl e \<Rightarrow> Inl e | Inr ratio \<Rightarrow>
        Inr ((width, height), ratio, width * height)))))))"

fun all_measures :: "json list \<Rightarrow> py_error + ((int \<times> int) \<times> real \<times> int) list" where
  "all_measures [] = Inr []"
| "all_measures (section # rest) =
     (case section_measures section of
        Inl e \<Rightarrow> Inl e
      | Inr m \<Rightarrow> (case all_measures rest of Inl e \<Rightarrow> Inl e | Inr ms \<Rightarrow> Inr (m # ms)))"

text \<open>
  \<^verbatim>\<open>Counter(xs)\<close> keeps its keys in the order of their first occurrence;
  \<^verbatim>\<open>most_common(n)\<close> sorts by falling count, equal counts staying in that order.
\<close>

definition counter_add :: "'a \<Rightarrow> ('a \<times> nat) list \<Rightarrow> ('a \<times> nat) list" where
  "counter_add x c = AList.update x (Suc (case map_of c x of None \<Rightarrow> 0 | Some n \<Rightarrow> n)) c"

definition counter_of :: "'a list \<Rightarrow> ('a \<times> nat) list" where
  "counter_of xs = foldl (\<lambda>c x. counter_add x c) [] xs"

definition most_common :: "nat \<Rightarrow> ('a \<times> nat) list \<Rightarrow> ('a \<times> nat) list" where
  "most_common n c = take n (sort_key (\<lambda>p. - int (snd p)) c)"

record type_pattern =
  pattern_count :: nat
  common_dimensions :: "((int \<times> int) \<times> nat) list"
  common_aspect_ratios :: "(real \<times> nat) list"
  avg_area :: real
  min_area :: int
  max_area :: int

text \<open>
  Lines 302 to 319, from the measures of the sections of one type. The average area is
  the quotient of two integers, a float.
\<close>

definition type_pattern_of ::
  "((int \<times> int) \<times> real \<times> int) list \<Rightarrow> py_error + type_pattern" where
  "type_pattern_of ms =
     (let dimensions = map fst ms;
          aspect_ratios = map (\<lambda>m. fst (snd m)) ms;
          areas = map (\<lambda>m. snd (snd m)) ms
      in case (if areas = [] then Inr 0 else py_truediv (sum_list areas) (int (length areas))) of
           Inl e \<Rightarrow> Inl e
         | Inr avg \<Rightarrow>
             Inr \<lparr>pattern_count = length ms,
                  common_dimensions = most_common 5 (counter_of dimensions),
                  common_aspect_ratios = most_common 3 (counter_of aspect_ratios),
                  avg_area = avg,
                  min_area = (if areas = [] then 0 else Min (set areas)),
                  max_area = (if areas = [] then 0 else Max (set areas))\<rparr>)"

text \<open>The loop of line 287 over \<^verbatim>\<open>self.section_types.items()\<close>.\<close>

fun analyze_types :: "(string \<times> json list) list \<Rightarrow> py_error + (string \<times> type_pattern) list" where
  "analyze_types [] = Inr []"
| "analyze_types (entry # rest) =
     (case all_measures (snd entry) of
        Inl e \<Rightarrow> Inl e
      | Inr ms \<Rightarrow>
         (case type_pattern_of ms of
            Inl e \<Rightarrow> Inl e
          | Inr p \<Rightarrow>
             (case analyze_types rest of
                Inl e \<Rightarrow> Inl e
              | Inr ps \<Rightarrow> Inr ((fst entry, p) # ps))))"

text \<open>\<^verbatim>\<open>[s[key] for s in sections]\<close>.\<close>

fun getitem_all :: "string \<Rightarrow> json list \<Rightarrow> py_error + json list" where
  "getitem_all k [] = Inr []"
| "getitem_all k (s # ss) =
     (case py_getitem s k of
        Inl e \<Rightarrow> Inl e
      | Inr v \<Rightarrow> (case getitem_all k ss of Inl e \<Rightarrow> Inl e | Inr vs \<Rightarrow> Inr (v # vs)))"

record patterns =
  pattern_section_types :: "(string \<times> type_pattern) list"
  most_common_types :: "(json \<times> nat) list"
  total_sections :: nat
  unique_types :: nat

text \<open>\<^verbatim>\<open>analyze_patterns\<close>; writing the file \<^verbatim>\<open>patterns.json\<close> is not modelled.\<close>

definition analyze_patterns :: "processor \<Rightarrow> py_error + patterns" where
  "analyze_patterns st =
     (case analyze_types (section_types st) of
        Inl e \<Rightarrow> Inl e
      | Inr ps \<Rightarrow>
         (case getitem_all ''type'' (sections_catalog st) of
            Inl e \<Rightarrow> Inl e
          | Inr tys \<Rightarrow>
              Inr \<lparr>pattern_section_types = ps,
                   most_common_types = most_common 10 (counter_of tys),
                   total_sections = length (sections_catalog st),
                   unique_types = length (section_types st)\<rparr>))"

section \<open>Phase 4: the module catalog, and the statistics\<close>

record module_catalog =
  total_modules :: nat
  source_stores :: nat
  catalog_section_types :: "string set"
  modules :: "json list"
  types_index :: "(string \<times> json list) list"

text \<open>The dictionary comprehension of lines 348 to 351.\<close>

fun build_types_index :: "(string \<times> json list) list \<Rightarrow> py_error + (string \<times> json list) list" where
  "build_types_index [] = Inr []"
| "build_types_index (entry # rest) =
     (case getitem_all ''unique_id'' (snd entry) of
        Inl e \<Rightarrow> Inl e
      | Inr ids \<Rightarrow>
         (case build_types_index rest of
            Inl e \<Rightarrow> Inl e
          | Inr idx \<Rightarrow> Inr ((fst entry, ids) # idx)))"

text \<open>\<^verbatim>\<open>generate_module_catalog\<close>; the time of generation and writing the file are not
  modelled.\<close>

definition generate_module_catalog :: "processor \<Rightarrow> py_error + module_catalog" where
  "generate_module_catalog st =
     (case build_types_index (section_types st) of
        Inl e \<Rightarrow> Inl e
      | Inr idx \<Rightarrow>
          Inr \<lparr>total_modules = length (sections_catalog st),
               source_stores = length (annotations st),
               catalog_section_types = section_types_found st,
               modules = sections_catalog st,
               types_index = idx\<rparr>)"

record statistics =
  stats_files_processed :: int
  stats_sections_extracted :: int
  errors_count :: nat
  section_type_breakdown :: "(string \<times> nat) list"
  stats_errors :: "log_entry list"

text \<open>
  \<^verbatim>\<open>generate_statistics\<close>, without the elapsed time and the recommendations, which no
  property below reads.
\<close>

definition generate_statistics :: "processor \<Rightarrow> statistics" where
  "generate_statistics st =
     \<lparr>stats_files_processed = files_processed st,
      stats_sections_extracted = sections_extracted st,
      errors_count = length (errors st),
      section_type_breakdown = map (\<lambda>entry. (fst entry, length (snd entry))) (section_types st),
      stats_errors = errors st\<rparr>"

record artifacts =
  patterns_doc :: patterns
  catalog_doc :: module_catalog
  statistics_doc :: statistics

text \<open>
  \<^verbatim>\<open>run_full_processing\<close> on the annotation files found: the final state, and the
  documents written, none when no annotation was loaded. An exception of a later phase
  is re-raised.
\<close>

definition run_full_processing ::
  "world \<Rightarrow> (string \<times> (py_error + json)) list \<Rightarrow> py_error + processor \<times> artifacts option" where
  "run_full_processing w annotation_files =
     (let st = load_annotations w annotation_files init_processor in
      if annotations st = [] then Inr (st, None)
      else
        let st' = crop_sections w st in
        case analyze_patterns st' of
          Inl e \<Rightarrow> Inl e
        | Inr p \<Rightarrow>
           (case generate_module_catalog st' of
              Inl e \<Rightarrow> Inl e
            | Inr c \<Rightarrow>
                Inr (st', Some \<lparr>patterns_doc = p, catalog_doc = c,
                                statistics_doc = generate_statistics st'\<rparr>)))"

section \<open>Notions used in the statements and proofs\<close>

subsection \<open>What the properties are stated with\<close>

text \<open>
  A value has a field when it is a dictionary with that key. A record lacks a required
  field when one of the three top-level fields is absent, or when \<^verbatim>\<open>sections\<close> is a
  list with a dictionary in it that has no \<^verbatim>\<open>id\<close>, no \<^verbatim>\<open>type\<close> or no
  \<^verbatim>\<open>coordinates\<close>.
\<close>

fun is_dict :: "json \<Rightarrow> bool" where
  "is_dict (JObj kvs) = True"
| "is_dict _ = False"

fun has_field :: "json \<Rightarrow> string \<Rightarrow> bool" where
  "has_field (JObj kvs) f = (map_of kvs f \<noteq> None)"
| "has_field _ f = False"

definition lacks_required_field :: "json \<Rightarrow> bool" where
  "lacks_required_field annotation =
     (list_ex (\<lambda>f. \<not> has_field annotation f) required_fields \<or>
      (case py_getitem annotation ''sections'' of
         Inr (JList sections) \<Rightarrow>
           list_ex (\<lambda>s. is_dict s \<and> list_ex (\<lambda>f. \<not> has_field s f) required_section_fields)
             sections
       | _ \<Rightarrow> False))"

subsection \<open>A small run\<close>

text \<open>
  An environment in which the screenshot \<^verbatim>\<open>s1.png\<close> exists and opens as an image of
  1000 by 2000 pixels and no library call raises; a section and an annotation of the
  shape the annotation files have.
\<close>

definition demo_world :: world where
  "demo_world =
     \<lparr>screenshot_exists = (\<lambda>name. name = ''s1.png''),
      image_open = (\<lambda>path. Inr (1000, 2000)),
      pil_raises = (\<lambda>section_id call. None),
      now_iso = (\<lambda>n. ''2024-01-01T00:00:00'')\<rparr>"

definition demo_section :: "string \<Rightarrow> string \<Rightarrow> int \<Rightarrow> int \<Rightarrow> int \<Rightarrow> int \<Rightarrow> json" where
  "demo_section i ty x y width height =
     JObj [(''id'', JStr i), (''type'', JStr ty),
           (''coordinates'', JObj [(''x'', JInt x), (''y'', JInt y),
                                   (''width'', JInt width), (''height'', JInt height)])]"

definition demo_annotation :: "json list \<Rightarrow> json" where
  "demo_annotation secs =
     JObj [(''source_image'', JStr ''s1.png''),
           (''image_dimensions'', JObj [(''width'', JInt 1000), (''height'', JInt 2000)]),
           (''sections'', JList secs)]"

text \<open>The run of the first two phases on annotations with the given lists of sections.\<close>

definition demo_run :: "json list list \<Rightarrow> processor" where
  "demo_run anns =
     crop_sections demo_world
       (load_annotations demo_world
          (map (\<lambda>secs. (''annotations_s1.json'', Inr (demo_annotation secs))) anns) init_processor)"

subsection \<open>Auxiliary notions of the proofs\<close>

text \<open>The number a string of decimal digits denotes.\<close>

definition digit_val :: "char \<Rightarrow> nat" where
  "digit_val c = (case map_of (zip ascii_digits [0, 1, 2, 3, 4, 5, 6, 7, 8, 9]) c of
                    Some d \<Rightarrow> d | None \<Rightarrow> 0)"

definition dec_val :: "string \<Rightarrow> nat" where
  "dec_val s = foldl (\<lambda>a c. 10 * a + digit_val c) 0 s"

text \<open>
  The type tag of a cataloged section, and the grouping of a flat catalog by type tag
  that \<^verbatim>\<open>section_types\<close> holds.
\<close>

definition type_tag :: "json \<Rightarrow> string" where
  "type_tag s = (case py_getitem s ''type'' of Inr (JStr t) \<Rightarrow> t | _ \<Rightarrow> [])"

definition groups :: "json list \<Rightarrow> (string \<times> json list) list" where
  "groups cat = foldl (\<lambda>d s. defaultdict_append (type_tag s) s d) [] cat"

text \<open>
  An entry of the catalog with sequence number \<open>n\<close>: a section whose crop succeeded,
  with the four keys stored in it.
\<close>

definition entry_ok :: "json \<Rightarrow> int \<Rightarrow> bool" where
  "entry_ok s n =
     (\<exists>t. py_getitem s ''type'' = Inr (JStr t) \<and>
          py_getitem s ''unique_id'' = Inr (JStr (format_section_id t n)))"

definition entry_from :: "world \<Rightarrow> json \<Rightarrow> int \<Rightarrow> bool" where
  "entry_from w s n =
     (\<exists>kvs t coords img src cf.
        s = JObj (add_metadata kvs (format_section_id t n) src cf (now_iso w n)) \<and>
        map_of kvs ''type'' = Some (JStr t) \<and>
        map_of kvs ''coordinates'' = Some coords \<and>
        crop_section_image w img coords (format_section_id t n) t = Some cf)"

text \<open>
  The invariant of the cropping loops: the counter is one more than the length of the
  catalog, the entry at each position carries that position's sequence number, and the
  type groups are the grouping of the catalog.
\<close>

definition catalog_inv :: "world \<Rightarrow> processor \<times> int \<Rightarrow> bool" where
  "catalog_inv w sc =
     (snd sc = 1 + int (length (sections_catalog (fst sc))) \<and>
      (\<forall>i < length (sections_catalog (fst sc)).
          entry_from w (sections_catalog (fst sc) ! i) (int i + 1)) \<and>
      section_types (fst sc) = groups (sections_catalog (fst sc)))"

text \<open>Two states of the cropping loops that agree on the counter and the catalog.\<close>

definition same_catalog :: "processor \<times> int \<Rightarrow> processor \<times> int \<Rightarrow> bool" where
  "same_catalog a b =
     (snd a = snd b \<and> sections_catalog (fst a) = sections_catalog (fst b) \<and>
      section_types (fst a) = section_types (fst b))"

text \<open>
  What loading one file adds to the state: the annotations admitted and the errors
  logged.
\<close>

definition log_more :: "processor \<Rightarrow> log_entry list \<Rightarrow> processor" where
  "log_more st es = st\<lparr>errors := errors st @ es\<rparr>"

definition file_result ::
  "world \<Rightarrow> string \<times> (py_error + json) \<Rightarrow> (string \<times> json) list list \<times> log_entry list" where
  "file_result w f =
     (annotations (load_annotation_file w f init_processor),
      errors (load_annotation_file w f init_processor))"

definition admit :: "processor \<Rightarrow> (string \<times> json) list list \<times> log_entry list \<Rightarrow> processor" where
  "admit st r =
     st\<lparr>annotations := annotations st @ fst r, errors := errors st @ snd r,
        files_processed := files_processed st + int (length (fst r))\<rparr>"

text \<open>The relative error of one rounding to a double.\<close>

definition u53 :: real where
  "u53 = 1 / 2 ^ 53"

section \<open>Section identifiers are determined by their counter\<close>

lemma digit_val_digit_char: "d < 10 \<Longrightarrow> digit_val (digit_char d) = d"
proof -
  assume "d < 10"
  then have "d \<in> {0,1,2,3,4,5,6,7,8,9}" by auto
  then show ?thesis
    by (auto simp: digit_val_def digit_char_def ascii_digits_def)
qed

lemma digit_char_not_underscore: "d < 10 \<Longrightarrow> digit_char d \<noteq> CHR ''_''"
proof -
  assume "d < 10"
  then have "d \<in> {0,1,2,3,4,5,6,7,8,9}" by auto
  then show ?thesis
    by (auto simp: digit_char_def ascii_digits_def)
qed

lemma dec_val_snoc: "dec_val (s @ [c]) = 10 * dec_val s + digit_val c"
  by (simp add: dec_val_def)

lemma dec_val_digits: "dec_val (digits n) = n"
proof (induction n rule: digits.induct)
  case (1 n)
  show ?case
  proof (cases "n < 10")
    case True
    then show ?thesis
      by (subst digits.simps) (simp add: dec_val_def digit_val_digit_char)
  next
    case False
    with 1 show ?thesis
      by (subst digits.simps) (simp add: dec_val_snoc digit_val_digit_char)
  qed
qed

lemma digit_val_zero: "digit_val CHR ''0'' = 0"
  by (simp add: digit_val_def ascii_digits_def)

lemma dec_val_replicate_zero: "dec_val (replicate k CHR ''0'' @ s) = dec_val s"
proof -
  have "foldl (\<lambda>a c. 10 * a + digit_val c) 0 (replicate k CHR ''0'') = 0"
    by (induction k) (simp_all add: digit_val_zero)
  then show ?thesis by (simp add: dec_val_def)
qed

lemma dec_val_zfill: "dec_val (zfill k s) = dec_val s"
  by (simp add: zfill_def dec_val_replicate_zero)

lemma underscore_free_digits: "CHR ''_'' \<notin> set (digits n)"
proof (induction n rule: digits.induct)
  case (1 n)
  show ?case
  proof (cases "n < 10")
    case True
    then show ?thesis
      using digit_char_not_underscore [of n] by (subst digits.simps) auto
  next
    case False
    with 1 show ?thesis
      using digit_char_not_underscore [of "n mod 10"] by (subst digits.simps) auto
  qed
qed

lemma underscore_free_format: "0 \<le> n \<Longrightarrow> CHR ''_'' \<notin> set (format_04d n)"
  by (simp add: format_04d_def zfill_def underscore_free_digits)

lemma dec_val_format: "0 \<le> n \<Longrightarrow> int (dec_val (format_04d n)) = n"
  by (simp add: format_04d_def dec_val_zfill dec_val_digits)

lemma split_at_last_underscore:
  assumes "a @ CHR ''_'' # d = b @ CHR ''_'' # e" "CHR ''_'' \<notin> set d" "CHR ''_'' \<notin> set e"
  shows "d = e"
proof -
  have "takeWhile (\<lambda>c. c \<noteq> CHR ''_'') (rev (a @ CHR ''_'' # d)) = rev d"
    using assms(2) by (auto simp: takeWhile_tail)
  moreover have "takeWhile (\<lambda>c. c \<noteq> CHR ''_'') (rev (b @ CHR ''_'' # e)) = rev e"
    using assms(3) by (auto simp: takeWhile_tail)
  ultimately have "rev d = rev e" using assms(1) by simp
  then show ?thesis by simp
qed

lemma format_section_id_inj:
  assumes "format_section_id t1 a = format_section_id t2 b" "0 \<le> a" "0 \<le> b"
  shows "a = b"
proof -
  have "format_04d a = format_04d b"
    using assms split_at_last_underscore [of _ "format_04d a" _ "format_04d b"]
    by (simp add: format_section_id_def underscore_free_format)
  then have "int (dec_val (format_04d a)) = int (dec_val (format_04d b))"
    by (rule arg_cong)
  then show ?thesis
    by (simp only: dec_val_format [OF assms(2)] dec_val_format [OF assms(3)])
qed

section \<open>The cropping loops keep the catalog in step with the counter\<close>

lemma process_section_Inr:
  assumes "process_section w src img section sc = Inr sc'"
  obtains (dropped) "sc' = sc"
  | (cataloged) kvs t coords cf where "section = JObj kvs" "map_of kvs ''type'' = Some (JStr t)"
      "map_of kvs ''coordinates'' = Some coords"
      "crop_section_image w img coords (format_section_id t (snd sc)) t = Some cf"
      "sc' = catalog_section w src kvs t (format_section_id t (snd sc)) cf sc"
proof (cases "section")
  case (JObj kvs)
  show ?thesis
  proof (cases "map_of kvs ''type''")
    case None
    with JObj assms show ?thesis
      by (simp add: process_section_def generate_section_id_def)
  next
    case (Some ty)
    note ty = this
    show ?thesis
    proof (cases ty)
      case (JStr t)
      show ?thesis
      proof (cases "map_of kvs ''coordinates''")
        case None
        with JObj ty JStr assms show ?thesis
          by (simp add: process_section_def generate_section_id_def)
      next
        case (Some coords)
        show ?thesis
        proof (cases "crop_section_image w img coords (format_section_id t (snd sc)) t")
          case None
          with JObj ty JStr Some assms have "sc' = sc"
            by (simp add: process_section_def generate_section_id_def)
          then show ?thesis by (rule dropped)
        next
          case (Some cf)
          with JObj ty JStr \<open>map_of kvs ''coordinates'' = Some coords\<close> assms
          have "sc' = catalog_section w src kvs t (format_section_id t (snd sc)) cf sc"
            by (simp add: process_section_def generate_section_id_def)
          with JObj ty JStr \<open>map_of kvs ''coordinates'' = Some coords\<close> Some show ?thesis
            by (intro cataloged) auto
        qed
      qed
    qed (use JObj ty assms in \<open>simp_all add: process_section_def generate_section_id_def\<close>)
  qed
qed (use assms in \<open>simp_all add: process_section_def generate_section_id_def\<close>)

lemma map_of_add_metadata:
  "k \<notin> {''processing_date'', ''cropped_files'', ''source_file'', ''unique_id''} \<Longrightarrow>
   map_of (add_metadata kvs sid src cf d) k = map_of kvs k"
  by (simp add: add_metadata_def update_conv')

lemma map_of_add_metadata_unique_id:
  "map_of (add_metadata kvs sid src cf d) ''unique_id'' = Some (JStr sid)"
  by (simp add: add_metadata_def update_conv')

lemma map_of_add_metadata_cropped_files:
  "map_of (add_metadata kvs sid src cf d) ''cropped_files'' = Some cf"
  by (simp add: add_metadata_def update_conv')

lemma type_tag_add_metadata:
  "map_of kvs ''type'' = Some (JStr t) \<Longrightarrow> type_tag (JObj (add_metadata kvs sid src cf d)) = t"
  by (simp add: type_tag_def map_of_add_metadata)

lemma entry_from_ok: "entry_from w s n \<Longrightarrow> entry_ok s n"
  by (auto simp: entry_from_def entry_ok_def map_of_add_metadata map_of_add_metadata_unique_id)

lemma groups_snoc: "groups (cat @ [s]) = defaultdict_append (type_tag s) s (groups cat)"
  by (simp add: groups_def)

lemma catalog_section_fields:
  "sections_catalog (fst (catalog_section w src kvs t sid cf sc)) =
     sections_catalog (fst sc) @ [JObj (add_metadata kvs sid src cf (now_iso w (snd sc)))]"
  "section_types (fst (catalog_section w src kvs t sid cf sc)) =
     defaultdict_append t (JObj (add_metadata kvs sid src cf (now_iso w (snd sc)))) (section_types (fst sc))"
  "snd (catalog_section w src kvs t sid cf sc) = snd sc + 1"
  "errors (fst (catalog_section w src kvs t sid cf sc)) = errors (fst sc)"
  "annotations (fst (catalog_section w src kvs t sid cf sc)) = annotations (fst sc)"
  by (simp_all add: catalog_section_def Let_def)

lemma catalog_section_inv:
  assumes "catalog_inv w sc" "map_of kvs ''type'' = Some (JStr t)"
    "map_of kvs ''coordinates'' = Some coords"
    "crop_section_image w img coords (format_section_id t (snd sc)) t = Some cf"
  shows "catalog_inv w (catalog_section w src kvs t (format_section_id t (snd sc)) cf sc)"
proof -
  let ?cat = "sections_catalog (fst sc)"
  let ?s = "JObj (add_metadata kvs (format_section_id t (snd sc)) src cf (now_iso w (snd sc)))"
  have c: "snd sc = 1 + int (length ?cat)"
    and ok: "\<And>i. i < length ?cat \<Longrightarrow> entry_from w (?cat ! i) (int i + 1)"
    and g: "section_types (fst sc) = groups ?cat"
    using assms(1) by (auto simp: catalog_inv_def)
  have "entry_from w ?s (snd sc)"
    unfolding entry_from_def using assms(2-4) by blast
  then have new: "entry_from w ?s (int (length ?cat) + 1)"
    using c by (simp add: add.commute)
  have "entry_from w ((?cat @ [?s]) ! i) (int i + 1)" if "i < Suc (length ?cat)" for i
  proof (cases "i < length ?cat")
    case True
    then show ?thesis using ok by (simp add: nth_append)
  next
    case False
    with that have "i = length ?cat" by simp
    then show ?thesis using new by simp
  qed
  moreover have "defaultdict_append t ?s (groups ?cat) = groups (?cat @ [?s])"
    by (simp add: groups_snoc type_tag_add_metadata [OF assms(2)])
  ultimately show ?thesis
    using c g by (simp add: catalog_inv_def catalog_section_fields)
qed

lemma process_section_inv:
  assumes "catalog_inv w sc" "process_section w src img s sc = Inr sc'"
  shows "catalog_inv w sc'"
  using assms(2)
proof (cases rule: process_section_Inr)
  case dropped
  with assms(1) show ?thesis by simp
next
  case (cataloged kvs t coords cf)
  with assms(1) show ?thesis by (simp add: catalog_section_inv)
qed

lemma process_sections_inv:
  "catalog_inv w sc \<Longrightarrow> catalog_inv w (snd (process_sections w src img secs sc))"
proof (induction secs arbitrary: sc)
  case Nil
  then show ?case by simp
next
  case (Cons s secs)
  show ?case
  proof (cases "process_section w src img s sc")
    case (Inl e)
    with Cons.prems show ?thesis by simp
  next
    case (Inr sc')
    with Cons.prems have "catalog_inv w sc'" by (simp add: process_section_inv)
    with Cons.IH Inr show ?thesis by simp
  qed
qed

lemma process_annotation_body_inv:
  "catalog_inv w sc \<Longrightarrow> catalog_inv w (snd (process_annotation_body w a sc))"
  by (auto simp: process_annotation_body_def process_sections_inv split: sum.splits)

lemma processing_failed_inv: "catalog_inv w sc \<Longrightarrow> catalog_inv w (processing_failed a e sc)"
  by (simp add: catalog_inv_def processing_failed_def)

lemma process_annotation_inv:
  assumes "catalog_inv w sc"
  shows "catalog_inv w (process_annotation w a sc)"
proof -
  obtain r sc' where b: "process_annotation_body w a sc = (r, sc')"
    by (cases "process_annotation_body w a sc") auto
  with process_annotation_body_inv [OF assms, of a] have "catalog_inv w sc'" by simp
  with b show ?thesis
    by (cases r) (simp_all add: process_annotation_def processing_failed_inv)
qed

lemma crop_annotations_inv:
  "catalog_inv w sc \<Longrightarrow> catalog_inv w (crop_annotations w as sc)"
  by (induction as arbitrary: sc) (simp_all add: process_annotation_inv)

lemma catalog_inv_start:
  "sections_catalog st = [] \<Longrightarrow> section_types st = [] \<Longrightarrow> catalog_inv w (st, 1)"
  by (simp add: catalog_inv_def groups_def)

section \<open>What loading a file does to the state\<close>

lemma log_more_Nil: "log_more st [] = st"
  by (simp add: log_more_def)

lemma annotations_log_more: "annotations (log_more st es) = annotations st"
  by (simp add: log_more_def)

lemma annotations_init: "annotations init_processor = []"
  by (simp add: init_processor_def)

lemma validate_sections_frame:
  "validate_sections i ss f st =
     (case validate_sections i ss f init_processor of
        Inl e \<Rightarrow> Inl e
      | Inr r \<Rightarrow> Inr (fst r, log_more st (errors (snd r))))"
proof (induction ss arbitrary: i)
  case Nil
  show ?case by (simp add: init_processor_def log_more_def)
next
  case (Cons s ss)
  show ?case
  proof (cases "first_missing required_section_fields s")
    case (Inl e)
    then show ?thesis by simp
  next
    case (Inr m)
    then show ?thesis
      using Cons.IH by (cases m) (simp_all add: init_processor_def log_more_def)
  qed
qed

lemma validate_sections_outcome:
  "validate_sections i ss f init_processor = Inr r \<Longrightarrow>
   (fst r \<and> errors (snd r) = []) \<or> (\<not> fst r \<and> length (errors (snd r)) = 1)"
proof (induction ss arbitrary: i)
  case Nil
  then show ?case by (auto simp: init_processor_def)
next
  case (Cons s ss)
  show ?case
  proof (cases "first_missing required_section_fields s")
    case (Inl e)
    with Cons.prems show ?thesis by simp
  next
    case (Inr m)
    with Cons show ?thesis
      by (cases m) (auto simp: init_processor_def)
  qed
qed

lemma validate_annotation_frame:
  "validate_annotation a f st =
     (case validate_annotation a f init_processor of
        Inl e \<Rightarrow> Inl e
      | Inr r \<Rightarrow> Inr (fst r, log_more st (errors (snd r))))"
proof -
  have vs: "\<And>ss. validate_sections 0 ss f st =
     (case validate_sections 0 ss f init_processor of
        Inl e \<Rightarrow> Inl e
      | Inr r \<Rightarrow> Inr (fst r, log_more st (errors (snd r))))"
    by (rule validate_sections_frame)
  show ?thesis
    unfolding validate_annotation_def
    by (simp add: vs init_processor_def log_more_def split: sum.splits option.splits json.splits)
qed

lemma validate_annotation_outcome:
  "validate_annotation a f init_processor = Inr r \<Longrightarrow>
   (fst r \<and> errors (snd r) = []) \<or> (\<not> fst r \<and> length (errors (snd r)) = 1)"
  unfolding validate_annotation_def
  by (auto simp: init_processor_def split: sum.splits option.splits json.splits
      dest!: validate_sections_outcome [unfolded init_processor_def])

lemma validate_annotation_init:
  assumes "validate_annotation a f init_processor = Inr r"
  shows "snd r = log_more init_processor (errors (snd r))"
  using validate_annotation_frame [of a f init_processor] assms by (cases r) simp

lemma load_annotation_file_shape:
  "\<exists>r. (\<forall>st. load_annotation_file w f st = admit st r) \<and>
       ((\<exists>a. r = ([a], [])) \<or> (\<exists>e. r = ([], [e])))"
proof (cases f)
  case (Pair name content)
  show ?thesis
  proof (cases content)
    case (Inl e)
    with Pair have "\<forall>st. load_annotation_file w f st = admit st ([], [ErrorLoading name e])"
      by (simp add: load_annotation_file_def admit_def)
    then show ?thesis by blast
  next
    case (Inr a)
    note content = this
    show ?thesis
    proof (cases "validate_annotation a name init_processor")
      case (Inl e)
      then have "\<And>st. validate_annotation a name st = Inl e"
        by (subst validate_annotation_frame) simp
      with Pair content
      have "\<forall>st. load_annotation_file w f st = admit st ([], [ErrorLoading name e])"
        by (simp add: load_annotation_file_def admit_def)
      then show ?thesis by blast
    next
      case (Inr r)
      then have v: "\<And>st. validate_annotation a name st = Inr (fst r, log_more st (errors (snd r)))"
        by (subst validate_annotation_frame) simp
      from validate_annotation_outcome [OF Inr]
      consider (valid) "fst r" "errors (snd r) = []"
        | (invalid) e where "\<not> fst r" "errors (snd r) = [e]"
        by (auto simp: length_Suc_conv)
      then show ?thesis
      proof cases
        case invalid
        with Pair content v
        have "\<forall>st. load_annotation_file w f st = admit st ([], [e])"
          by (simp add: load_annotation_file_def admit_def log_more_def)
        then show ?thesis by blast
      next
        case valid
        with v have v': "\<And>st. validate_annotation a name st = Inr (True, st)"
          by (simp add: log_more_Nil)
        show ?thesis
        proof (cases "py_getitem a ''source_image''")
          case (Inl e)
          with Pair content v'
          have "\<forall>st. load_annotation_file w f st = admit st ([], [ErrorLoading name e])"
            by (simp add: load_annotation_file_def admit_def)
          then show ?thesis by blast
        next
          case (Inr src)
          note src = this
          show ?thesis
          proof (cases "find_matching_screenshot w src")
            case (Inl e)
            with Pair content v' src
            have "\<forall>st. load_annotation_file w f st = admit st ([], [ErrorLoading name e])"
              by (simp add: load_annotation_file_def admit_def)
            then show ?thesis by blast
          next
            case (Inr found)
            show ?thesis
            proof (cases found)
              case None
              with Pair content v' src Inr
              have "\<forall>st. load_annotation_file w f st = admit st ([], [NoMatchingScreenshot src])"
                by (simp add: load_annotation_file_def admit_def)
              then show ?thesis by blast
            next
              case (Some path)
              from src obtain kvs where a: "a = JObj kvs"
                by (cases a) simp_all
              with Pair content v' src Inr Some
              have "\<forall>st. load_annotation_file w f st =
                      admit st ([AList.update ''annotation_file'' (JStr (''annotations/'' @ name))
                                  (AList.update ''screenshot_path'' (JStr path) kvs)], [])"
                by (simp add: load_annotation_file_def admit_def)
              then show ?thesis by blast
            qed
          qed
        qed
      qed
    qed
  qed
qed

lemma load_annotation_file_admit: "load_annotation_file w f st = admit st (file_result w f)"
proof -
  obtain r where r: "\<And>st. load_annotation_file w f st = admit st r"
    using load_annotation_file_shape [of w f] by blast
  have "file_result w f = r"
    by (cases r) (simp add: file_result_def r admit_def init_processor_def)
  with r show ?thesis by simp
qed

lemma file_result_cases: "(\<exists>a. file_result w f = ([a], [])) \<or> (\<exists>e. file_result w f = ([], [e]))"
proof -
  obtain r where r: "\<And>st. load_annotation_file w f st = admit st r"
    and c: "(\<exists>a. r = ([a], [])) \<or> (\<exists>e. r = ([], [e]))"
    using load_annotation_file_shape [of w f] by blast
  have "file_result w f = r"
    by (cases r) (simp add: file_result_def r admit_def init_processor_def)
  with c show ?thesis by simp
qed

lemma load_annotations_admit:
  "load_annotations w fs st =
     admit st (concat (map (\<lambda>f. fst (file_result w f)) fs), concat (map (\<lambda>f. snd (file_result w f)) fs))"
proof (induction fs arbitrary: st)
  case Nil
  show ?case by (simp add: admit_def)
next
  case (Cons f fs)
  show ?case
    by (simp add: Cons.IH load_annotation_file_admit) (simp add: admit_def)
qed

section \<open>A record that lacks a field is not admitted\<close>

lemma first_missing_dict_None:
  "first_missing fs (JObj kvs) = Inr None \<Longrightarrow> f \<in> set fs \<Longrightarrow> map_of kvs f \<noteq> None"
  by (induction fs) (auto split: if_splits bool.splits)

lemma first_missing_has_field:
  assumes "first_missing fs s = Inr None" "is_dict s" "f \<in> set fs"
  shows "has_field s f"
  using assms by (cases s) (auto dest: first_missing_dict_None)

lemma validate_sections_True:
  "validate_sections i ss f st = Inr (True, st') \<Longrightarrow> s \<in> set ss \<Longrightarrow>
   first_missing required_section_fields s = Inr None"
proof (induction ss arbitrary: i)
  case Nil
  then show ?case by simp
next
  case (Cons x ss)
  show ?case
  proof (cases "first_missing required_section_fields x")
    case (Inl e)
    with Cons.prems show ?thesis by simp
  next
    case (Inr m)
    with Cons show ?thesis
      by (cases m) auto
  qed
qed

lemma validate_annotation_True:
  assumes "validate_annotation a f st = Inr (True, st')"
  shows "\<not> lacks_required_field a"
proof -
  from assms have fm: "first_missing required_fields a = Inr None"
    by (auto simp: validate_annotation_def split: sum.splits option.splits)
  with assms obtain kvs where a: "a = JObj kvs"
    by (cases a) (auto simp: validate_annotation_def)
  have top: "\<not> list_ex (\<lambda>f. \<not> has_field a f) required_fields"
    using fm a by (auto simp: list_ex_iff dest: first_missing_dict_None)
  have "\<not> list_ex (\<lambda>s. is_dict s \<and> list_ex (\<lambda>f. \<not> has_field s f) required_section_fields) ss"
    if "py_getitem a ''sections'' = Inr (JList ss)" for ss
  proof -
    from assms fm that have "validate_sections 0 ss f st = Inr (True, st')"
      by (simp add: validate_annotation_def)
    then show ?thesis
      by (auto simp: list_ex_iff dest: validate_sections_True first_missing_has_field)
  qed
  with top show ?thesis
    by (auto simp: lacks_required_field_def split: sum.splits json.splits)
qed

lemma lacking_not_admitted:
  assumes "lacks_required_field a"
  shows "\<exists>e. file_result w (name, Inr a) = ([], [e])"
proof -
  have "annotations (load_annotation_file w (name, Inr a) init_processor) = []"
  proof (cases "validate_annotation a name init_processor")
    case (Inl e)
    then show ?thesis by (simp add: load_annotation_file_def init_processor_def)
  next
    case (Inr r)
    obtain b st1 where r: "r = (b, st1)" by (cases r)
    with Inr assms have "\<not> b"
      using validate_annotation_True [of a name init_processor st1] by auto
    moreover have "annotations st1 = []"
      using validate_annotation_init [OF Inr] r
      by (metis annotations_log_more annotations_init snd_conv)
    ultimately show ?thesis using Inr r by (simp add: load_annotation_file_def)
  qed
  then have "fst (file_result w (name, Inr a)) = []"
    by (simp add: file_result_def)
  with file_result_cases [of w "(name, Inr a)"] show ?thesis by auto
qed

section \<open>The catalog does not depend on the error log\<close>

lemma catalog_section_same:
  "same_catalog a b \<Longrightarrow>
   same_catalog (catalog_section w src kvs t sid cf a) (catalog_section w src kvs t sid cf b)"
  by (simp add: same_catalog_def catalog_section_fields)

lemma process_section_typed_same:
  assumes "same_catalog a b"
  shows "rel_sum (=) same_catalog (process_section_typed w src img s ty sid coords a)
           (process_section_typed w src img s ty sid coords b)"
  using assms
  by (cases s; cases ty) (auto simp: catalog_section_same split: option.splits)

lemma process_section_same:
  assumes "same_catalog a b"
  shows "rel_sum (=) same_catalog (process_section w src img s a) (process_section w src img s b)"
proof -
  from assms have "snd a = snd b" by (simp add: same_catalog_def)
  then show ?thesis
    using process_section_typed_same [OF assms]
    by (auto simp: process_section_def split: sum.splits)
qed

lemma process_sections_same:
  "same_catalog a b \<Longrightarrow>
   fst (process_sections w src img secs a) = fst (process_sections w src img secs b) \<and>
   same_catalog (snd (process_sections w src img secs a)) (snd (process_sections w src img secs b))"
proof (induction secs arbitrary: a b)
  case Nil
  then show ?case by simp
next
  case (Cons s secs)
  show ?case
  proof (cases "process_section w src img s a")
    case (Inl e)
    with process_section_same [OF Cons.prems, of w src img s]
    have "process_section w src img s b = Inl e"
      by (cases "process_section w src img s b") simp_all
    with Inl Cons.prems show ?thesis by simp
  next
    case (Inr a')
    with process_section_same [OF Cons.prems, of w src img s]
    obtain b' where b': "process_section w src img s b = Inr b'" "same_catalog a' b'"
      by (cases "process_section w src img s b") simp_all
    with Inr Cons.IH [of a' b'] show ?thesis by simp
  qed
qed

lemma process_annotation_body_same:
  assumes "same_catalog a b"
  shows "fst (process_annotation_body w ann a) = fst (process_annotation_body w ann b) \<and>
         same_catalog (snd (process_annotation_body w ann a)) (snd (process_annotation_body w ann b))"
  using assms process_sections_same [OF assms]
  by (auto simp: process_annotation_body_def split: sum.splits)

lemma processing_failed_same:
  "same_catalog a b \<Longrightarrow> same_catalog (processing_failed ann e a) (processing_failed ann e b)"
  by (simp add: same_catalog_def processing_failed_def)

lemma process_annotation_same:
  assumes "same_catalog a b"
  shows "same_catalog (process_annotation w ann a) (process_annotation w ann b)"
proof -
  obtain r a' where ra: "process_annotation_body w ann a = (r, a')"
    by (cases "process_annotation_body w ann a") auto
  obtain r' b' where rb: "process_annotation_body w ann b = (r', b')"
    by (cases "process_annotation_body w ann b") auto
  from process_annotation_body_same [OF assms, of w ann] ra rb
  have "r' = r" "same_catalog a' b'" by simp_all
  with ra rb show ?thesis
    by (cases r) (simp_all add: process_annotation_def processing_failed_same)
qed

lemma crop_annotations_same:
  "same_catalog a b \<Longrightarrow> same_catalog (crop_annotations w anns a) (crop_annotations w anns b)"
  by (induction anns arbitrary: a b) (simp_all add: process_annotation_same)

lemma admit_fields:
  "annotations (admit st r) = annotations st @ fst r"
  "errors (admit st r) = errors st @ snd r"
  "sections_catalog (admit st r) = sections_catalog st"
  "section_types (admit st r) = section_types st"
  by (simp_all add: admit_def)

section \<open>A run from an empty catalog; the counter never decreases\<close>

lemma crop_sections_inv:
  assumes "sections_catalog st = []" "section_types st = []"
  shows "catalog_inv w (crop_annotations w (annotations st) (st, 1))"
  by (rule crop_annotations_inv [OF catalog_inv_start [OF assms]])

lemma loaded_catalog_empty:
  "sections_catalog (load_annotations w fs init_processor) = []"
  "section_types (load_annotations w fs init_processor) = []"
  by (simp_all add: load_annotations_admit admit_fields init_processor_def)


lemma process_section_counter:
  assumes "process_section w src img s sc = Inr sc'"
  shows "snd sc \<le> snd sc'"
  using assms
  by (cases rule: process_section_Inr) (simp_all add: catalog_section_fields)

lemma process_sections_counter: "snd sc \<le> snd (snd (process_sections w src img secs sc))"
proof (induction secs arbitrary: sc)
  case Nil
  show ?case by simp
next
  case (Cons s secs)
  show ?case
  proof (cases "process_section w src img s sc")
    case (Inl e)
    then show ?thesis by simp
  next
    case (Inr sc')
    with process_section_counter [OF Inr] Cons.IH [of sc'] show ?thesis by simp
  qed
qed

lemma process_annotation_body_counter: "snd sc \<le> snd (snd (process_annotation_body w a sc))"
  by (auto simp: process_annotation_body_def process_sections_counter split: sum.splits)

lemma process_annotation_counter: "snd sc \<le> snd (process_annotation w a sc)"
proof -
  obtain r sc' where b: "process_annotation_body w a sc = (r, sc')"
    by (cases "process_annotation_body w a sc") auto
  with process_annotation_body_counter [of sc w a] have "snd sc \<le> snd sc'" by simp
  with b show ?thesis
    by (cases r) (simp_all add: process_annotation_def processing_failed_def)
qed

lemma crop_annotations_append:
  "crop_annotations w (as1 @ as2) sc = crop_annotations w as2 (crop_annotations w as1 sc)"
  by (induction as1 arbitrary: sc) simp_all

section \<open>Rounding to a double\<close>

lemma rne_close: "\<bar>of_int (rne y) - y\<bar> \<le> 1 / 2"
  unfolding rne_def Let_def by (auto simp: abs_if) linarith+

lemma rne_of_int [simp]: "rne (of_int n) = n"
  by (simp add: rne_def)

lemma rne_cases: "rne y = \<lfloor>y\<rfloor> \<or> rne y = \<lfloor>y\<rfloor> + 1"
  by (auto simp: rne_def Let_def)

lemma rne_mono: "x \<le> y \<Longrightarrow> rne x \<le> rne y"
proof -
  assume xy: "x \<le> y"
  then have f: "\<lfloor>x\<rfloor> \<le> \<lfloor>y\<rfloor>" by (rule floor_mono)
  show ?thesis
  proof (cases "\<lfloor>x\<rfloor> = \<lfloor>y\<rfloor>")
    case True
    with xy show ?thesis
      by (auto simp: rne_def Let_def)
  next
    case False
    with f have "\<lfloor>x\<rfloor> + 1 \<le> \<lfloor>y\<rfloor>" by simp
    moreover have "rne x \<le> \<lfloor>x\<rfloor> + 1" using rne_cases [of x] by auto
    moreover have "\<lfloor>y\<rfloor> \<le> rne y" using rne_cases [of y] by auto
    ultimately show ?thesis by simp
  qed
qed

lemma rne_minus: "rne (- y) = - rne y"
proof (cases "y \<in> \<int>")
  case True
  then obtain n where "y = of_int n" by (auto elim: Ints_cases)
  then show ?thesis by (simp flip: of_int_minus)
next
  case False
  then have "y \<noteq> of_int \<lfloor>y\<rfloor>"
    by (metis Ints_of_int)
  then have fl: "\<lfloor>- y\<rfloor> = - \<lfloor>y\<rfloor> - 1"
    by (simp add: floor_minus ceiling_altdef)
  show ?thesis
    unfolding rne_def Let_def fl using False
    by (auto simp: field_simps) (linarith+)?
qed

lemma powr_two_int: "2 powr real_of_int k = 2 powi k"
  by (simp add: powr_real_of_int')

lemma expo_bounds:
  assumes "x \<noteq> 0"
  shows "2 powi expo x \<le> \<bar>x\<bar>" "\<bar>x\<bar> < 2 powi (expo x + 1)"
proof -
  have "0 < \<bar>x\<bar>" using assms by simp
  from floor_log_eq_powr_iff [OF this, of 2 "expo x"]
  have "2 powr real_of_int (expo x) \<le> \<bar>x\<bar> \<and> \<bar>x\<bar> < 2 powr real_of_int (expo x + 1)"
    unfolding expo_def by simp
  then show "2 powi expo x \<le> \<bar>x\<bar>" "\<bar>x\<bar> < 2 powi (expo x + 1)"
    by (simp_all only: powr_two_int)
qed

lemma expo_eqI:
  assumes "2 powi e \<le> \<bar>x\<bar>" "\<bar>x\<bar> < 2 powi (e + 1)"
  shows "expo x = e"
proof -
  have "0 < (2 :: real) powi e" by (simp add: zero_less_power_int)
  with assms(1) have "0 < \<bar>x\<bar>" by linarith
  from floor_log_eq_powr_iff [OF this, of 2 e] assms show ?thesis
    unfolding expo_def powr_two_int by simp
qed

lemma ulp_pos: "0 < ulp x"
  by (simp add: ulp_def zero_less_power_int)

lemma expo_minus: "expo (- x) = expo x"
  by (simp add: expo_def)

lemma ulp_minus: "ulp (- x) = ulp x"
  by (simp add: ulp_def expo_minus)

lemma fl_minus: "fl (- x) = - fl x"
  by (simp add: fl_def ulp_minus rne_minus)

lemma fl_zero: "fl 0 = 0"
  by (simp add: fl_def)

lemma rne_zero: "rne 0 = 0"
  by (simp add: rne_def)

lemma rne_nonneg: "0 \<le> y \<Longrightarrow> 0 \<le> rne y"
  using rne_mono [of 0 y] by (simp add: rne_zero)

lemma fl_nonneg: "0 \<le> x \<Longrightarrow> 0 \<le> fl x"
  using ulp_pos [of x] by (simp add: fl_def rne_nonneg)

lemma fl_error:
  assumes "2 powi (- 1022) \<le> \<bar>x\<bar>"
  shows "\<bar>fl x - x\<bar> \<le> \<bar>x\<bar> / 2 ^ 53"
proof -
  have "0 < (2 :: real) powi (- 1022)" by (rule zero_less_power_int) simp
  with assms have x: "x \<noteq> 0" by auto
  note b = expo_bounds [OF x]
  from assms b(2) have "(2 :: real) powi (- 1022) < 2 powi (expo x + 1)" by linarith
  then have "- 1022 < expo x + 1"
    by (metis not_less power_int_increasing one_le_numeral)
  then have u: "ulp x = 2 powi (expo x - 52)"
    by (simp add: ulp_def max_def)
  have "fl x - x = (of_int (rne (x / ulp x)) - x / ulp x) * ulp x"
    using x ulp_pos [of x] by (simp add: fl_def field_simps)
  then have "\<bar>fl x - x\<bar> = \<bar>of_int (rne (x / ulp x)) - x / ulp x\<bar> * ulp x"
    using ulp_pos [of x] by (simp add: abs_mult)
  also have "\<dots> \<le> 1 / 2 * ulp x"
    using rne_close [of "x / ulp x"] ulp_pos [of x] by (intro mult_right_mono) simp_all
  also have "\<dots> = 2 powi expo x / 2 ^ 53"
    by (simp add: u power_int_diff)
  also have "\<dots> \<le> \<bar>x\<bar> / 2 ^ 53"
    using b(1) by (simp add: divide_right_mono)
  finally show ?thesis .
qed

lemma fl_representable:
  assumes "x = of_int m * 2 powi k" "\<bar>m\<bar> < 2 ^ 53" "- 1074 \<le> k"
  shows "fl x = x"
proof (cases "m = 0")
  case True
  with assms(1) show ?thesis by (simp add: fl_def)
next
  case False
  with assms(1) have x: "x \<noteq> 0" by simp
  define E where "E = max (expo x) (- 1022) - 52"
  have u: "ulp x = 2 powi E" by (simp add: ulp_def E_def)
  have "\<bar>x\<bar> = of_int \<bar>m\<bar> * 2 powi k"
    by (simp add: assms(1) abs_mult)
  also have "\<dots> < 2 ^ 53 * 2 powi k"
  proof (rule mult_strict_right_mono)
    from assms(2) have "(of_int \<bar>m\<bar> :: real) < of_int (2 ^ 53)" by (simp only: of_int_less_iff)
    then show "(of_int \<bar>m\<bar> :: real) < 2 ^ 53" by simp
    show "0 < (2 :: real) powi k" by (rule zero_less_power_int) simp
  qed
  also have "\<dots> = 2 powi (53 + k)"
    by (simp add: power_int_add)
  finally have "\<bar>x\<bar> < 2 powi (53 + k)" .
  with expo_bounds(1) [OF x] have "(2 :: real) powi expo x < 2 powi (53 + k)" by linarith
  then have "expo x < 53 + k"
    by (metis not_less power_int_increasing one_le_numeral)
  with assms(3) have Ek: "E \<le> k" by (simp add: E_def)
  have "2 powi k = (2 :: real) powi (k - E) * 2 powi E"
    by (simp flip: power_int_add)
  also have "(2 :: real) powi (k - E) = 2 ^ nat (k - E)"
    using Ek by (simp add: power_int_def)
  finally have k: "(2 :: real) powi k = 2 ^ nat (k - E) * 2 powi E" .
  have p: "0 < (2 :: real) powi E" by (rule zero_less_power_int) simp
  have xe: "x = of_int (m * 2 ^ nat (k - E)) * 2 powi E"
    by (simp add: assms(1) k)
  then have "x / ulp x = of_int (m * 2 ^ nat (k - E))"
    unfolding u using p by (metis nonzero_mult_div_cancel_right less_numeral_extra(3))
  then have "rne (x / ulp x) = m * 2 ^ nat (k - E)"
    by (simp only: rne_of_int)
  then have "fl x = of_int (m * 2 ^ nat (k - E)) * 2 powi E"
    using x by (simp only: fl_def u if_False)
  with xe show ?thesis by simp
qed

lemma fl_of_int:
  assumes "\<bar>n\<bar> \<le> 2 ^ 53"
  shows "fl (of_int n) = of_int n"
proof (cases "\<bar>n\<bar> < 2 ^ 53")
  case True
  then show ?thesis by (intro fl_representable [of _ n 0]) simp_all
next
  case False
  with assms have "\<bar>n\<bar> = 2 ^ 53" by simp
  then consider "n = 2 ^ 53" | "n = - (2 ^ 53)" by (auto simp: abs_if split: if_splits)
  then show ?thesis
  proof cases
    case 1
    show ?thesis by (rule fl_representable [of _ 1 53]) (simp_all add: 1)
  next
    case 2
    show ?thesis by (rule fl_representable [of _ "- 1" 53]) (simp_all add: 2)
  qed
qed

lemma expo_mono: "0 < x \<Longrightarrow> x \<le> y \<Longrightarrow> expo x \<le> expo y"
  unfolding expo_def by (intro floor_mono) simp

lemma two_powi_53: "(2 :: real) powi (e + 1) / 2 powi (e - 52) = 2 ^ 53"
proof -
  have "(2 :: real) powi ((e + 1) - (e - 52)) = 2 powi (e + 1) / 2 powi (e - 52)"
    by (rule power_int_diff) simp
  moreover have "(e + 1) - (e - 52) = 53" by simp
  ultimately have "(2 :: real) powi (e + 1) / 2 powi (e - 52) = 2 powi 53" by simp
  then show ?thesis by simp
qed

lemma two_powi_52: "(2 :: real) powi e / 2 powi (e - 52) = 2 ^ 52"
proof -
  have "(2 :: real) powi (e - (e - 52)) = 2 powi e / 2 powi (e - 52)"
    by (rule power_int_diff) simp
  moreover have "e - (e - 52) = 52" by simp
  ultimately have "(2 :: real) powi e / 2 powi (e - 52) = 2 powi 52" by simp
  then show ?thesis by simp
qed

lemma fl_upper:
  assumes "0 < x"
  shows "fl x \<le> 2 powi (max (expo x) (- 1022) + 1)"
proof -
  define e where "e = max (expo x) (- 1022)"
  have u: "ulp x = 2 powi (e - 52)" by (simp add: ulp_def e_def)
  have up: "0 < ulp x" by (rule ulp_pos)
  have "x < 2 powi (expo x + 1)"
    using expo_bounds(2) [of x] assms by simp
  also have "\<dots> \<le> 2 powi (e + 1)"
    by (rule power_int_increasing) (simp_all add: e_def)
  finally have "x / ulp x \<le> 2 powi (e + 1) / 2 powi (e - 52)"
    unfolding u using up u by (intro divide_right_mono) simp_all
  then have "x / ulp x \<le> of_int (2 ^ 53)"
    by (simp add: two_powi_53)
  from rne_mono [OF this] have "rne (x / ulp x) \<le> 2 ^ 53"
    by (simp only: rne_of_int)
  then have "(of_int (rne (x / ulp x)) :: real) \<le> of_int (2 ^ 53)"
    by (simp only: of_int_le_iff)
  then have "of_int (rne (x / ulp x)) * ulp x \<le> 2 ^ 53 * ulp x"
    using up by (intro mult_right_mono) simp_all
  also have "\<dots> = 2 powi (e + 1) / 2 powi (e - 52) * 2 powi (e - 52)"
    by (simp only: two_powi_53 u)
  also have "\<dots> = 2 powi (e + 1)"
    by simp
  finally show ?thesis
    using assms by (simp add: fl_def e_def)
qed

lemma fl_lower:
  assumes "0 < y" "- 1022 \<le> expo y"
  shows "2 powi expo y \<le> fl y"
proof -
  define e where "e = expo y"
  have u: "ulp y = 2 powi (e - 52)" using assms(2) by (simp add: ulp_def e_def max_def)
  have up: "0 < ulp y" by (rule ulp_pos)
  have "2 powi e \<le> y"
    using expo_bounds(1) [of y] assms(1) by (simp add: e_def)
  then have "2 powi e / 2 powi (e - 52) \<le> y / ulp y"
    unfolding u using up u by (intro divide_right_mono) simp_all
  then have "of_int (2 ^ 52) \<le> y / ulp y"
    by (simp add: two_powi_52)
  from rne_mono [OF this] have "2 ^ 52 \<le> rne (y / ulp y)"
    by (simp only: rne_of_int)
  then have "(of_int (2 ^ 52) :: real) \<le> of_int (rne (y / ulp y))"
    by (simp only: of_int_le_iff)
  then have "2 ^ 52 * ulp y \<le> of_int (rne (y / ulp y)) * ulp y"
    using up by (intro mult_right_mono) simp_all
  moreover have "2 ^ 52 * ulp y = 2 powi e / 2 powi (e - 52) * 2 powi (e - 52)"
    by (simp only: two_powi_52 u)
  moreover have "\<dots> = 2 powi e"
    by simp
  ultimately show ?thesis
    using assms(1) by (simp add: fl_def e_def)
qed

lemma fl_mono_pos:
  assumes "0 < x" "x \<le> y"
  shows "fl x \<le> fl y"
proof -
  define ex where "ex = max (expo x) (- 1022)"
  define ey where "ey = max (expo y) (- 1022)"
  from assms have y: "0 < y" by simp
  from expo_mono [OF assms] have le: "ex \<le> ey" by (simp add: ex_def ey_def)
  show ?thesis
  proof (cases "ex = ey")
    case True
    then have u: "ulp x = ulp y" by (simp add: ulp_def ex_def ey_def)
    have "x / ulp y \<le> y / ulp y"
      using assms(2) ulp_pos [of y] by (intro divide_right_mono) simp_all
    from rne_mono [OF this] have "(of_int (rne (x / ulp y)) :: real) \<le> of_int (rne (y / ulp y))"
      by (simp only: of_int_le_iff)
    then have "of_int (rne (x / ulp y)) * ulp y \<le> of_int (rne (y / ulp y)) * ulp y"
      using ulp_pos [of y] by (intro mult_right_mono) simp_all
    then show ?thesis
      using assms(1) y by (simp add: fl_def u)
  next
    case False
    with le have lt: "ex + 1 \<le> ey" by simp
    then have ey: "ey = expo y" "- 1022 \<le> expo y"
      by (auto simp: ex_def ey_def max_def split: if_splits)
    have "fl x \<le> 2 powi (ex + 1)"
      using fl_upper [OF assms(1)] by (simp add: ex_def)
    also have "\<dots> \<le> 2 powi ey"
      using lt by (intro power_int_increasing) simp_all
    also have "\<dots> \<le> fl y"
      using fl_lower [OF y ey(2)] by (simp add: ey(1))
    finally show ?thesis .
  qed
qed

lemma fl_mono:
  assumes "x \<le> y"
  shows "fl x \<le> fl y"
proof -
  consider "0 < x" | "x = 0" | "x < 0" "0 \<le> y" | "x < 0" "y < 0" by linarith
  then show ?thesis
  proof cases
    case 1
    then show ?thesis using assms by (rule fl_mono_pos)
  next
    case 2
    with assms show ?thesis by (simp add: fl_zero fl_nonneg)
  next
    case 3
    from 3(1) have "0 \<le> fl (- x)" by (intro fl_nonneg) simp
    then have "fl x \<le> 0" by (simp add: fl_minus)
    with fl_nonneg [OF 3(2)] show ?thesis by simp
  next
    case 4
    from 4(2) assms have "fl (- y) \<le> fl (- x)" by (intro fl_mono_pos) simp_all
    then show ?thesis by (simp add: fl_minus)
  qed
qed

section \<open>Floats that are computed exactly\<close>

lemma fl_numeral: "(numeral k :: int) \<le> 2 ^ 53 \<Longrightarrow> fl (numeral k) = numeral k"
  using fl_of_int [of "numeral k"] by simp

lemma fl_one: "fl 1 = 1"
  using fl_of_int [of 1] by simp

lemma finite_double_numeral: "(numeral k :: int) \<le> 2 ^ 53 \<Longrightarrow> finite_double (numeral k)"
proof -
  assume k: "(numeral k :: int) \<le> 2 ^ 53"
  then have "(of_int (numeral k) :: real) \<le> of_int (2 ^ 53)"
    by (simp only: of_int_le_iff)
  then have "(numeral k :: real) \<le> 2 ^ 53" by simp
  also have "\<dots> < 2 ^ 1024" by simp
  finally show ?thesis
    by (simp add: finite_double_def fl_numeral [OF k])
qed

lemma finite_double_one: "finite_double 1"
  by (simp add: finite_double_def fl_one)

lemma fl_numeral_half:
  assumes "(numeral k :: int) < 2 ^ 53"
  shows "fl (numeral k / 2) = numeral k / 2"
proof (rule fl_representable [of _ "numeral k" "- 1"])
  show "(numeral k / 2 :: real) = of_int (numeral k) * 2 powi (- 1)"
    by (simp add: power_int_minus)
  have "\<bar>numeral k :: int\<bar> = numeral k" by simp
  with assms show "\<bar>numeral k :: int\<bar> < 2 ^ 53" by (simp only:)
  show "- 1074 \<le> (- 1 :: int)" by simp
qed

lemma finite_double_numeral_half:
  assumes "(numeral k :: int) < 2 ^ 53"
  shows "finite_double (numeral k / 2)"
proof -
  from assms have "(of_int (numeral k) :: real) < of_int (2 ^ 53)"
    by (simp only: of_int_less_iff)
  then have "(numeral k :: real) < 2 ^ 53"
    by (simp only: of_int_numeral of_int_power)
  have "(0 :: real) \<le> numeral k" by (rule zero_le_numeral)
  then have "(numeral k :: real) / 2 \<le> numeral k" by linarith
  also note \<open>(numeral k :: real) < 2 ^ 53\<close>
  also have "(2 :: real) ^ 53 < 2 ^ 1024"
    by (rule power_strict_increasing) simp_all
  finally have "(numeral k / 2 :: real) < 2 ^ 1024" .
  moreover have "\<bar>numeral k / 2 :: real\<bar> = numeral k / 2"
    using \<open>(0 :: real) \<le> numeral k\<close> by (intro abs_of_nonneg divide_nonneg_nonneg) simp_all
  ultimately have "\<bar>numeral k / 2 :: real\<bar> < 2 ^ 1024" by (simp only:)
  then show ?thesis
    by (simp only: finite_double_def fl_numeral_half [OF assms])
qed

lemma fl_abs: "fl \<bar>x\<bar> = \<bar>fl x\<bar>"
proof (cases "0 \<le> x")
  case True
  then show ?thesis using fl_nonneg [of x] by simp
next
  case False
  then have "0 \<le> fl (- x)" by (intro fl_nonneg) simp
  with False show ?thesis by (simp add: fl_minus)
qed

lemma fl_two_powi: "- 1074 \<le> k \<Longrightarrow> fl (2 powi k) = 2 powi k"
  by (rule fl_representable [of _ 1 k]) simp_all

lemma two_powi_1024: "(2 :: real) powi 1024 = 2 ^ 1024"
  by (simp only: power_int_numeral)

lemma two_powi_53': "(2 :: real) powi 53 = 2 ^ 53"
  by (simp only: power_int_numeral)

lemma finite_double_bound:
  assumes "finite_double x"
  shows "\<bar>x\<bar> < 2 ^ 1024"
proof (rule ccontr)
  assume "\<not> \<bar>x\<bar> < 2 ^ 1024"
  then have "(2 :: real) powi 1024 \<le> \<bar>x\<bar>"
    unfolding two_powi_1024 by (rule leI)
  from fl_mono [OF this] have "fl (2 powi 1024) \<le> \<bar>fl x\<bar>"
    by (simp only: fl_abs)
  moreover have "fl (2 powi 1024) = 2 powi 1024"
    by (rule fl_two_powi) simp
  ultimately have "2 ^ 1024 \<le> \<bar>fl x\<bar>"
    by (simp only: two_powi_1024)
  moreover from assms have "\<bar>fl x\<bar> < 2 ^ 1024"
    by (simp only: finite_double_def)
  ultimately show False using leD by blast
qed

lemma finite_doubleI:
  assumes "\<bar>x\<bar> \<le> 2 ^ 53"
  shows "finite_double x"
proof -
  from assms have "\<bar>x\<bar> \<le> 2 powi 53" by (simp only: two_powi_53')
  from fl_mono [OF this] have "\<bar>fl x\<bar> \<le> fl (2 powi 53)"
    by (simp only: fl_abs)
  moreover have "fl (2 powi 53) = 2 powi 53"
    by (rule fl_two_powi) simp
  ultimately have "\<bar>fl x\<bar> \<le> 2 ^ 53"
    by (simp only: two_powi_53')
  also have "(2 :: real) ^ 53 < 2 ^ 1024"
    by (rule power_strict_increasing) simp_all
  finally show ?thesis by (simp only: finite_double_def)
qed

lemma finite_double_mono:
  assumes "finite_double y" "\<bar>x\<bar> \<le> \<bar>y\<bar>"
  shows "finite_double x"
proof -
  from fl_mono [OF assms(2)] have "\<bar>fl x\<bar> \<le> \<bar>fl y\<bar>" by (simp only: fl_abs)
  with assms(1) show ?thesis by (simp add: finite_double_def)
qed


lemma fl_min: "fl (min a b) = min (fl a) (fl b)"
  using fl_mono [of a b] fl_mono [of b a] by (auto simp: min_def)

lemma fl_eval:
  assumes "2 powi e \<le> \<bar>x\<bar>" "\<bar>x\<bar> < 2 powi (e + 1)" "- 1022 \<le> e"
  shows "fl x = of_int (rne (x / 2 powi (e - 52))) * 2 powi (e - 52)"
proof -
  have "0 < (2 :: real) powi e" by (rule zero_less_power_int) simp
  with assms(1) have "0 < \<bar>x\<bar>" by linarith
  then have x: "x \<noteq> 0" by simp
  from expo_eqI [OF assms(1,2)] have "expo x = e" .
  with assms(3) have "ulp x = 2 powi (e - 52)" by (simp add: ulp_def max_def)
  with x show ?thesis by (simp add: fl_def)
qed

lemma fl_rel:
  assumes "2 powi (- 1022) \<le> x"
  shows "x * (1 - u53) \<le> fl x" "fl x \<le> x * (1 + u53)"
proof -
  have "0 < (2 :: real) powi (- 1022)" by (rule zero_less_power_int) simp
  with assms have x: "0 < x" by linarith
  with assms have "2 powi (- 1022) \<le> \<bar>x\<bar>" by simp
  from fl_error [OF this] x have "\<bar>fl x - x\<bar> \<le> x * u53"
    by (simp add: u53_def)
  then show "x * (1 - u53) \<le> fl x" "fl x \<le> x * (1 + u53)"
    by (simp_all add: algebra_simps abs_le_iff)
qed

section \<open>Division, products and the resized dimensions\<close>

lemma rne_bound:
  assumes "\<bar>y\<bar> \<le> of_int N"
  shows "\<bar>rne y\<bar> \<le> N"
proof -
  from assms have "y \<le> of_int N" "- of_int N \<le> y" by (simp_all add: abs_le_iff)
  from rne_mono [OF this(1)] rne_mono [OF this(2)]
  have "rne y \<le> N" "- N \<le> rne y" by (simp_all add: rne_minus)
  then show ?thesis by (simp add: abs_le_iff)
qed

lemma fl_fl: "fl (fl x) = fl x"
proof (cases "x = 0")
  case True
  then show ?thesis by (simp add: fl_zero)
next
  case False
  define E where "E = max (expo x) (- 1022) - 52"
  define m where "m = rne (x / ulp x)"
  have u: "ulp x = 2 powi E" by (simp add: ulp_def E_def)
  have p: "0 < (2 :: real) powi E" by (rule zero_less_power_int) simp
  have flx: "fl x = of_int m * 2 powi E"
    using False by (simp add: fl_def m_def u)
  have E: "- 1074 \<le> E" by (simp add: E_def)
  have "\<bar>x\<bar> < 2 powi (expo x + 1)" using expo_bounds(2) [OF False] .
  also have "\<dots> \<le> 2 powi (E + 53)"
    by (rule power_int_increasing) (simp_all add: E_def)
  finally have "\<bar>x\<bar> / 2 powi E \<le> 2 powi (E + 53) / 2 powi E"
    using p by (intro divide_right_mono) simp_all
  also have "2 powi (E + 53) / 2 powi E = (2 :: real) powi 53"
    by (simp add: power_int_add)
  finally have "\<bar>x / ulp x\<bar> \<le> of_int (2 ^ 53)"
    using p by (simp add: u)
  from rne_bound [OF this] have m: "\<bar>m\<bar> \<le> 2 ^ 53" by (simp only: m_def)
  show ?thesis
  proof (cases "\<bar>m\<bar> < 2 ^ 53")
    case True
    from fl_representable [OF flx True E] show ?thesis .
  next
    case False
    with m have "\<bar>m\<bar> = 2 ^ 53" by simp
    then consider "m = 2 ^ 53" | "m = - (2 ^ 53)" by (auto simp: abs_if split: if_splits)
    then show ?thesis
    proof cases
      case 1
      have "fl x = 2 powi (53 + E)"
        by (simp add: flx 1 power_int_add)
      moreover have "fl (2 powi (53 + E)) = 2 powi (53 + E)"
        using E by (intro fl_two_powi) simp
      ultimately show ?thesis by simp
    next
      case 2
      have "fl x = - (2 powi (53 + E))"
        by (simp add: flx 2 power_int_add)
      moreover have "fl (2 powi (53 + E)) = 2 powi (53 + E)"
        using E by (intro fl_two_powi) simp
      ultimately show ?thesis by (simp add: fl_minus)
    qed
  qed
qed

lemma finite_double_fl: "finite_double (fl x) = finite_double x"
  by (simp add: finite_double_def fl_fl)

lemma py_truediv_pos:
  assumes "0 < b" "0 \<le> a" "a \<le> 2 ^ 53"
  shows "py_truediv a b = Inr (fl (of_int a / of_int b))"
proof -
  have "(1 :: real) \<le> of_int b" using assms(1) by simp
  then have "of_int a / of_int b \<le> (of_int a :: real) / 1"
    using assms(2) by (intro divide_left_mono) simp_all
  moreover from assms(3) have "(of_int a :: real) \<le> of_int (2 ^ 53)"
    by (simp only: of_int_le_iff)
  moreover have "0 \<le> (of_int a :: real) / of_int b"
    using assms(1,2) by simp
  ultimately have "\<bar>of_int a / of_int b :: real\<bar> \<le> 2 ^ 53" by simp
  then have "finite_double (of_int a / of_int b)" by (rule finite_doubleI)
  with assms(1) show ?thesis by (simp add: py_truediv_def)
qed

lemma py_int_of_product_scale:
  assumes "finite_double (of_int n)" "0 \<le> s" "s \<le> 1"
  shows "py_int_of_product n s = Inr (py_int (fl (fl (of_int n) * s)))"
proof -
  have "\<bar>fl (of_int n) * s\<bar> = \<bar>fl (of_int n)\<bar> * s"
    using assms(2) by (simp add: abs_mult)
  also have "\<dots> \<le> \<bar>fl (of_int n)\<bar> * 1"
    using assms(3) by (intro mult_left_mono) simp_all
  finally have "\<bar>fl (of_int n) * s\<bar> \<le> \<bar>fl (of_int n)\<bar>" by simp
  moreover have "finite_double (fl (of_int n))"
    using assms(1) by (simp only: finite_double_fl)
  ultimately have "finite_double (fl (of_int n) * s)"
    by (rule finite_double_mono [rotated])
  with assms(1) show ?thesis by (simp add: py_int_of_product_def)
qed

lemma py_int_of_product_overflow:
  "\<not> finite_double (of_int n) \<Longrightarrow> py_int_of_product n s = Inl OverflowError"
  by (simp add: py_int_of_product_def)

lemma cube_upper:
  assumes "0 \<le> u" "u \<le> 1 / 4"
  shows "(1 + u) * ((1 + u) * (1 + u)) \<le> 1 + 4 * (u :: real)"
proof -
  define q where "q = u * u"
  have q0: "0 \<le> q" using assms(1) by (simp add: q_def)
  have q: "q \<le> u * (1 / 4)" unfolding q_def using assms by (intro mult_left_mono) simp_all
  have "u * q \<le> (1 / 4) * q" using assms(2) q0 by (intro mult_right_mono) simp_all
  moreover have "(1 + u) * ((1 + u) * (1 + u)) = 1 + 3 * u + 3 * q + u * q"
    by (simp add: q_def algebra_simps)
  ultimately show ?thesis using q q0 by linarith
qed

lemma cube_lower:
  assumes "0 \<le> u" "u \<le> 1 / 4"
  shows "1 - 3 * (u :: real) \<le> (1 - u) * ((1 - u) * (1 - u))"
proof -
  define q where "q = u * u"
  have q0: "0 \<le> q" using assms(1) by (simp add: q_def)
  have "u * q \<le> (1 / 4) * q" using assms(2) q0 by (intro mult_right_mono) simp_all
  moreover have "(1 - u) * ((1 - u) * (1 - u)) = 1 - 3 * u + 3 * q - u * q"
    by (simp add: q_def algebra_simps)
  ultimately show ?thesis using q0 by linarith
qed

lemma u53_bounds: "0 < u53" "u53 \<le> 1 / 4" "1024 * (4 * u53) = 1 / 2 ^ 41"
proof -
  show "0 < u53" by (simp add: u53_def)
  have "(2 :: real) ^ 2 \<le> 2 ^ 53" by (rule power_increasing) simp_all
  then have "1 / (2 :: real) ^ 53 \<le> 1 / 2 ^ 2"
    by (intro divide_left_mono) simp_all
  then show "u53 \<le> 1 / 4" by (simp add: u53_def)
  have "(2 :: real) ^ 53 = 2 ^ 12 * 2 ^ 41" by (simp only: power_add [symmetric]) simp
  then show "1024 * (4 * u53) = 1 / 2 ^ 41" by (simp add: u53_def)
qed

lemma one_ge_tiny: "(2 :: real) powi (- 1022) \<le> 1"
proof -
  have "(2 :: real) powi (- 1022) \<le> 2 powi 0"
    by (rule power_int_increasing) simp_all
  then show ?thesis by simp
qed

text \<open>The float product of a dimension and a scale, against the exact product.\<close>

lemma scaled_dim_close:
  fixes n :: int and s :: real
  assumes n: "0 < n" and s: "2 powi (- 1022) \<le> s" and t: "of_int n * s \<le> 1024"
  defines "p \<equiv> fl (fl (of_int n) * fl s)"
  shows "of_int n * s - 1 / 2 ^ 41 \<le> p" "p \<le> of_int n * s + 1 / 2 ^ 41" "0 \<le> p"
proof -
  define x :: real where "x = of_int n"
  define u where "u = u53"
  define P where "P = fl x * fl s"
  define tn :: real where "tn = 2 powi (- 1022)"
  have tiny: "0 < tn" unfolding tn_def by (rule zero_less_power_int) simp
  have tn1: "tn \<le> 1" unfolding tn_def by (rule one_ge_tiny)
  have fltn: "fl tn = tn" unfolding tn_def by (rule fl_two_powi) simp
  have st: "tn \<le> s" using s by (simp only: tn_def)
  have x1: "1 \<le> x" using n by (simp add: x_def)
  then have x0: "0 \<le> x" by simp
  have s0: "0 \<le> s" using st tiny by linarith
  have u0: "0 \<le> u" and u1: "u \<le> 1 / 4" and uu: "1024 * (4 * u) = 1 / 2 ^ 41"
    using u53_bounds by (simp_all add: u_def)
  have um: "0 \<le> 1 - u" using u1 by simp
  have xt: "tn \<le> x" using x1 tn1 by linarith
  note fx = fl_rel [OF xt [unfolded tn_def], folded u_def]
  note fs = fl_rel [OF s, folded u_def]
  have flx1: "1 \<le> fl x" using fl_mono [OF x1] by (simp add: fl_one)
  have fls: "tn \<le> fl s"
    using fl_mono [OF st] by (simp only: fltn)
  have fls0: "0 \<le> fl s" using fls tiny by linarith
  have "1 * tn \<le> fl x * fl s"
    using flx1 fls tiny by (intro mult_mono) simp_all
  then have Pt: "tn \<le> P" by (simp add: P_def)
  then have P0: "0 \<le> P" using tiny by linarith
  note fP = fl_rel [OF Pt [unfolded tn_def], folded u_def]
  have Pup: "P \<le> (x * (1 + u)) * (s * (1 + u))"
    unfolding P_def using fx(2) fs(2) fls0 x0 u0 by (intro mult_mono) simp_all
  have Plo: "(x * (1 - u)) * (s * (1 - u)) \<le> P"
    unfolding P_def using fx(1) fs(1) x0 s0 um flx1 by (intro mult_mono) simp_all
  have xs0: "0 \<le> x * s" using x0 s0 by simp
  have "fl P \<le> P * (1 + u)" by (rule fP(2))
  also have "\<dots> \<le> ((x * (1 + u)) * (s * (1 + u))) * (1 + u)"
    using Pup u0 by (intro mult_right_mono) simp_all
  also have "\<dots> = (x * s) * ((1 + u) * ((1 + u) * (1 + u)))"
    by (simp add: mult_ac)
  also have "\<dots> \<le> (x * s) * (1 + 4 * u)"
    using xs0 cube_upper [OF u0 u1] by (intro mult_left_mono) simp_all
  also have "\<dots> = x * s + (x * s) * (4 * u)"
    by (simp add: algebra_simps)
  also have "\<dots> \<le> x * s + 1024 * (4 * u)"
    using t u0 by (intro add_left_mono mult_right_mono) (simp_all add: x_def)
  finally have up: "fl P \<le> x * s + 1 / 2 ^ 41"
    unfolding uu .
  have t': "x * s \<le> 1024" using t by (simp only: x_def)
  have "(x * s) * (4 * u) \<le> 1024 * (4 * u)"
    using t' u0 by (intro mult_right_mono) simp_all
  then have "x * s - 1024 * (4 * u) \<le> x * s - (x * s) * (4 * u)"
    by linarith
  also have "\<dots> \<le> x * s - (x * s) * (3 * u)"
  proof -
    have "(x * s) * (3 * u) \<le> (x * s) * (4 * u)"
      using xs0 u0 by (intro mult_left_mono) simp_all
    then show ?thesis by linarith
  qed
  also have "\<dots> = (x * s) * (1 - 3 * u)"
    by (simp add: algebra_simps)
  also have "\<dots> \<le> (x * s) * ((1 - u) * ((1 - u) * (1 - u)))"
    using xs0 cube_lower [OF u0 u1] by (intro mult_left_mono) simp_all
  also have "\<dots> = ((x * (1 - u)) * (s * (1 - u))) * (1 - u)"
    by (simp add: mult_ac)
  also have "\<dots> \<le> P * (1 - u)"
    using Plo um by (intro mult_right_mono) simp_all
  also have "\<dots> \<le> fl P" by (rule fP(1))
  finally have lo: "x * s - 1 / 2 ^ 41 \<le> fl P"
    unfolding uu .
  show "of_int n * s - 1 / 2 ^ 41 \<le> p" using lo by (simp add: p_def P_def x_def)
  show "p \<le> of_int n * s + 1 / 2 ^ 41" using up by (simp add: p_def P_def x_def)
  show "0 \<le> p" using fl_nonneg [OF P0] by (simp add: p_def P_def x_def)
qed

lemma py_int_nonneg: "0 \<le> x \<Longrightarrow> py_int x = \<lfloor>x\<rfloor>"
  by (simp add: py_int_def)

lemma small_error: "(1 :: real) / 2 ^ 41 < 1" "(1 :: real) / 2 ^ 41 < 1 / 2 ^ 31" "(0 :: real) < 1 / 2 ^ 41"
proof -
  have "(2 :: real) ^ 31 < 2 ^ 41" by (rule power_strict_increasing) simp_all
  then show "(1 :: real) / 2 ^ 41 < 1 / 2 ^ 31"
    by (intro divide_strict_left_mono) simp_all
  have "(2 :: real) ^ 0 < 2 ^ 41" by (rule power_strict_increasing) simp_all
  then have "(1 :: real) / 2 ^ 41 < 1 / 2 ^ 0"
    by (intro divide_strict_left_mono) simp_all
  then show "(1 :: real) / 2 ^ 41 < 1" by simp
  show "(0 :: real) < 1 / 2 ^ 41" by simp
qed

lemma resized_dim:
  fixes n M :: int and s :: real
  assumes n: "0 < n" and s: "2 powi (- 1022) \<le> s" "s \<le> 1"
    and t: "of_int n * s \<le> of_int M" and M: "M \<le> 1024"
  defines "r \<equiv> py_int (fl (fl (of_int n) * fl s))"
  shows "0 \<le> r" "r \<le> M" "r \<le> n"
    and "of_int n * s - 1 - 1 / 2 ^ 41 < of_int r" "of_int r \<le> of_int n * s + 1 / 2 ^ 41"
    and "\<bar>fl (fl (of_int n) * fl s) - of_int n * s\<bar> \<le> 1 / 2 ^ 41"
    and "r = \<lfloor>fl (fl (of_int n) * fl s)\<rfloor>"
proof -
  define p where "p = fl (fl (of_int n) * fl s)"
  from M have "(of_int M :: real) \<le> of_int 1024" by (simp only: of_int_le_iff)
  with t have t': "of_int n * s \<le> 1024" by simp
  note c = scaled_dim_close [OF n s(1) t', folded p_def]
  have r: "r = \<lfloor>p\<rfloor>" using c(3) by (simp add: r_def p_def py_int_nonneg)
  show "r = \<lfloor>fl (fl (of_int n) * fl s)\<rfloor>" using r by (simp only: p_def)
  show "\<bar>fl (fl (of_int n) * fl s) - of_int n * s\<bar> \<le> 1 / 2 ^ 41"
    using c(1,2) unfolding p_def abs_le_iff by linarith
  show "0 \<le> r" using c(3) by (simp add: r)
  have rp: "of_int r \<le> p" "p < of_int r + 1" unfolding r by linarith+
  show up: "of_int r \<le> of_int n * s + 1 / 2 ^ 41" using rp(1) c(2) by linarith
  show "of_int n * s - 1 - 1 / 2 ^ 41 < of_int r" using rp(2) c(1) by linarith
  have "(of_int r :: real) < of_int M + 1" using up t small_error(1) by linarith
  then have "(of_int r :: real) < of_int (M + 1)" by simp
  then have "r < M + 1" by (simp only: of_int_less_iff)
  then show rM: "r \<le> M" by simp
  show "r \<le> n"
  proof (cases "n \<le> M")
    case True
    with M n have "\<bar>n\<bar> \<le> 2 ^ 53" by simp
    then have fn: "fl (of_int n) = of_int n" by (rule fl_of_int)
    have "fl s \<le> 1" using fl_mono [OF s(2)] by (simp add: fl_one)
    then have "of_int n * fl s \<le> of_int n * 1"
      using n by (intro mult_left_mono) simp_all
    then have "fl (of_int n * fl s) \<le> fl (of_int n)"
      by (intro fl_mono) simp
    then have "p \<le> of_int n" by (simp add: p_def fn)
    with rp(1) have "(of_int r :: real) \<le> of_int n" by linarith
    then show ?thesis by (simp only: of_int_le_iff)
  next
    case False
    with rM show ?thesis by simp
  qed
qed

lemma floor_near_ratio:
  fixes A B :: int and y :: real
  assumes B: "0 < B" "B < 2 ^ 31" and y: "\<bar>y - of_int A / of_int B\<bar> \<le> 1 / 2 ^ 41"
  shows "(of_int A / of_int B :: real) - 1 \<le> of_int \<lfloor>y\<rfloor>" "of_int \<lfloor>y\<rfloor> \<le> (of_int A / of_int B :: real)"
proof -
  define k where "k = A div B"
  define r where "r = A mod B"
  define d :: real where "d = 1 / 2 ^ 41"
  have A: "A = k * B + r" by (simp add: k_def r_def)
  have r: "0 \<le> r" "r < B" using B(1) by (simp_all add: r_def)
  have Bp: "(0 :: real) < of_int B" using B(1) by simp
  have q: "(of_int A / of_int B :: real) = of_int k + of_int r / of_int B"
    using Bp by (simp add: A field_simps)
  have d1: "d < 1" "0 < d" using small_error by (simp_all add: d_def)
  from y have yb: "of_int A / of_int B - d \<le> y" "y \<le> of_int A / of_int B + d"
    unfolding abs_le_iff d_def by linarith+
  have "(of_int A / of_int B :: real) - 1 \<le> of_int \<lfloor>y\<rfloor> \<and> of_int \<lfloor>y\<rfloor> \<le> (of_int A / of_int B :: real)"
  proof (cases "r = 0")
    case True
    then have qk: "(of_int A / of_int B :: real) = of_int k" by (simp add: q)
    from yb d1 have "of_int (k - 1) < y" "y < of_int (k + 1)" by (simp_all add: qk)
    then have "k - 1 \<le> \<lfloor>y\<rfloor>" "\<lfloor>y\<rfloor> < k + 1"
      by (simp_all only: le_floor_iff floor_less_iff less_imp_le)
    then have "(of_int (k - 1) :: real) \<le> of_int \<lfloor>y\<rfloor>" "(of_int \<lfloor>y\<rfloor> :: real) \<le> of_int k"
      by (simp_all only: of_int_le_iff)
    then show ?thesis by (simp add: qk)
  next
    case False
    with r have r1: "1 \<le> r" "r \<le> B - 1" by simp_all
    from B(2) have "(of_int B :: real) < of_int (2 ^ 31)" by (simp only: of_int_less_iff)
    then have "(of_int B :: real) < 2 ^ 31" by simp
    then have "1 / 2 ^ 31 < 1 / (of_int B :: real)"
      using Bp by (intro divide_strict_left_mono) simp_all
    with small_error(2) have dB: "d < 1 / of_int B" by (simp add: d_def)
    have "(1 :: real) / of_int B \<le> of_int r / of_int B"
      using r1(1) Bp by (intro divide_right_mono) simp_all
    with dB have lo: "d < of_int r / of_int B" by linarith
    have "(of_int r :: real) \<le> of_int (B - 1)" using r1(2) by (simp only: of_int_le_iff)
    then have "(of_int r :: real) / of_int B \<le> of_int (B - 1) / of_int B"
      using Bp by (intro divide_right_mono) simp_all
    also have "\<dots> = 1 - 1 / of_int B"
      using Bp by (simp add: field_simps)
    finally have hi: "of_int r / of_int B < 1 - d" using dB by linarith
    from yb lo hi have "of_int k < y" "y < of_int k + 1" by (simp_all add: q)
    then have "\<lfloor>y\<rfloor> = k" by (intro floor_unique) simp_all
    moreover have "(0 :: real) \<le> of_int r / of_int B" using r(1) Bp by simp
    moreover have "of_int r / of_int B < (1 :: real)" using hi d1 by linarith
    ultimately show ?thesis by (simp add: q)
  qed
  then show "(of_int A / of_int B :: real) - 1 \<le> of_int \<lfloor>y\<rfloor>" "of_int \<lfloor>y\<rfloor> \<le> (of_int A / of_int B :: real)"
    by simp_all
qed

lemma tiny_eq: "(2 :: real) powi (- 1022) = 4 / 2 ^ 1024"
proof -
  have "(2 :: real) powi (2 - 1024) = 2 powi 2 / 2 powi 1024"
    by (rule power_int_diff) simp
  moreover have "(2 :: int) - 1024 = - 1022" by simp
  moreover have "(2 :: real) powi 2 = 4" by simp
  ultimately show ?thesis by (simp only: two_powi_1024)
qed

lemma quotient_not_tiny:
  fixes n M :: int
  assumes "0 < n" "finite_double (of_int n)" "4 \<le> M"
  shows "2 powi (- 1022) \<le> (of_int M / of_int n :: real)"
proof -
  from finite_double_bound [OF assms(2)] assms(1) have n: "(of_int n :: real) < 2 ^ 1024"
    by simp
  have n0: "(0 :: real) < of_int n" using assms(1) by simp
  have "(4 :: real) / 2 ^ 1024 \<le> 4 / of_int n"
    using n n0 by (intro divide_left_mono) simp_all
  also have "\<dots> \<le> of_int M / of_int n"
    using assms(3) n0 by (intro divide_right_mono) simp_all
  finally show ?thesis by (simp only: tiny_eq)
qed

lemma scale_props:
  fixes w h W H :: int
  assumes "0 < w" "0 < h" "finite_double (of_int w)" "finite_double (of_int h)" "4 \<le> W" "4 \<le> H"
  defines "s \<equiv> min (of_int W / of_int w) (min (of_int H / of_int h) (1 :: real))"
  shows "2 powi (- 1022) \<le> s" "s \<le> 1" "of_int w * s \<le> of_int W" "of_int h * s \<le> of_int H"
proof -
  have w0: "(0 :: real) < of_int w" and h0: "(0 :: real) < of_int h" using assms(1,2) by simp_all
  from quotient_not_tiny [OF assms(1,3,5)] quotient_not_tiny [OF assms(2,4,6)] one_ge_tiny
  show "2 powi (- 1022) \<le> s" by (simp only: s_def min_def split: if_splits) simp
  show "s \<le> 1" by (simp add: s_def)
  have "s \<le> of_int W / of_int w" by (simp add: s_def)
  then have "of_int w * s \<le> of_int w * (of_int W / of_int w)"
    using w0 by (intro mult_left_mono) simp_all
  then show "of_int w * s \<le> of_int W" using w0 by simp
  have "s \<le> of_int H / of_int h" by (simp add: s_def)
  then have "of_int h * s \<le> of_int h * (of_int H / of_int h)"
    using h0 by (intro mult_left_mono) simp_all
  then show "of_int h * s \<le> of_int H" using h0 by simp
qed

lemma calculate_resize_finite:
  assumes "calculate_resize (w, h) (W, H) = Inr r"
  shows "finite_double (of_int w)" "finite_double (of_int h)"
  using assms
  by (auto simp: calculate_resize_def Let_def py_int_of_product_def split: sum.splits if_splits)

lemma calculate_resize_float:
  fixes w h W H :: int
  assumes "0 < w" "0 < h" "finite_double (of_int w)" "finite_double (of_int h)"
    and "4 \<le> W" "W \<le> 1024" "4 \<le> H" "H \<le> 1024"
  defines "s \<equiv> min (of_int W / of_int w) (min (of_int H / of_int h) (1 :: real))"
  shows "calculate_resize (w, h) (W, H) =
           Inr (py_int (fl (fl (of_int w) * fl s)), py_int (fl (fl (of_int h) * fl s)))"
proof -
  note sp = scale_props [OF assms(1-5,7), folded s_def]
  have "0 < (2 :: real) powi (- 1022)" by (rule zero_less_power_int) simp
  with sp(1) have "0 \<le> s" by linarith
  then have f0: "0 \<le> fl s" by (rule fl_nonneg)
  have f1: "fl s \<le> 1" using fl_mono [OF sp(2)] by (simp add: fl_one)
  have a: "py_truediv W w = Inr (fl (of_int W / of_int w))"
    using assms(1,5,6) by (intro py_truediv_pos) simp_all
  have b: "py_truediv H h = Inr (fl (of_int H / of_int h))"
    using assms(2,7,8) by (intro py_truediv_pos) simp_all
  have sc: "min (fl (of_int W / of_int w)) (min (fl (of_int H / of_int h)) 1) = fl s"
    by (simp only: s_def fl_min fl_one)
  show ?thesis
    by (simp add: calculate_resize_def a b sc Let_def
        py_int_of_product_scale [OF assms(3) f0 f1] py_int_of_product_scale [OF assms(4) f0 f1])
qed

lemma calculate_resize_overflow:
  fixes w h W H :: int
  assumes "0 < w" "0 < h" "0 \<le> W" "W \<le> 1024" "0 \<le> H" "H \<le> 1024"
    and "\<not> (finite_double (of_int w) \<and> finite_double (of_int h))"
  shows "calculate_resize (w, h) (W, H) = Inl OverflowError"
proof -
  have a: "py_truediv W w = Inr (fl (of_int W / of_int w))"
    using assms(1,3,4) by (intro py_truediv_pos) simp_all
  have b: "py_truediv H h = Inr (fl (of_int H / of_int h))"
    using assms(2,5,6) by (intro py_truediv_pos) simp_all
  from assms(7) show ?thesis
    by (auto simp: calculate_resize_def a b Let_def py_int_of_product_def)
qed

lemma scaled_is_ratio:
  fixes w h W H n :: int
  assumes "0 < w" "0 < h" "w < 2 ^ 31" "h < 2 ^ 31"
  defines "s \<equiv> min (of_int W / of_int w) (min (of_int H / of_int h) (1 :: real))"
  shows "\<exists>A B. 0 < B \<and> B < 2 ^ 31 \<and> of_int n * s = (of_int A / of_int B :: real)"
proof -
  have "s = of_int W / of_int w \<or> s = of_int H / of_int h \<or> s = 1"
    unfolding s_def min_def by (simp split: if_splits)
  then consider "s = of_int W / of_int w" | "s = of_int H / of_int h" | "s = 1"
    by blast
  then show ?thesis
  proof cases
    case 1
    have "of_int n * s = (of_int (n * W) / of_int w :: real)" by (simp add: 1)
    with assms(1,3) show ?thesis by blast
  next
    case 2
    have "of_int n * s = (of_int (n * H) / of_int h :: real)" by (simp add: 2)
    with assms(2,4) show ?thesis by blast
  next
    case 3
    have "of_int n * s = (of_int n / of_int 1 :: real)" by (simp add: 3)
    moreover have "(0 :: int) < 1" "(1 :: int) < 2 ^ 31" by simp_all
    ultimately show ?thesis by blast
  qed
qed

text \<open>
  What \<^verbatim>\<open>calculate_resize\<close> returns for a size with positive dimensions and a bound
  between 4 and 1024: the float scale is the exact scale rounded, each new dimension is
  the float product rounded down, within the bound and the original dimension, and at
  most one pixel (and a rounding error of the float product) from the exactly scaled
  dimension; for dimensions below \<open>2 ^ 31\<close> it is the exactly scaled dimension rounded
  down, or one less when that is a whole number.
\<close>

lemma calculate_resize_spec:
  fixes w h W H nw nh :: int
  assumes r: "calculate_resize (w, h) (W, H) = Inr (nw, nh)" and pos: "0 < w" "0 < h"
    and bound: "4 \<le> W" "W \<le> 1024" "4 \<le> H" "H \<le> 1024"
  defines "s \<equiv> min (of_int W / of_int w) (min (of_int H / of_int h) (1 :: real))"
  shows "nw = \<lfloor>fl (fl (of_int w) * fl s)\<rfloor>" "nh = \<lfloor>fl (fl (of_int h) * fl s)\<rfloor>"
    and "0 \<le> nw" "0 \<le> nh" "nw \<le> W" "nh \<le> H" "nw \<le> w" "nh \<le> h"
    and "\<bar>fl (fl (of_int w) * fl s) - of_int w * s\<bar> \<le> 1 / 2 ^ 41"
    and "\<bar>fl (fl (of_int h) * fl s) - of_int h * s\<bar> \<le> 1 / 2 ^ 41"
    and "of_int w * s - 1 - 1 / 2 ^ 41 < of_int nw" "of_int nw \<le> of_int w * s + 1 / 2 ^ 41"
    and "of_int h * s - 1 - 1 / 2 ^ 41 < of_int nh" "of_int nh \<le> of_int h * s + 1 / 2 ^ 41"
    and "w < 2 ^ 31 \<and> h < 2 ^ 31 \<longrightarrow>
           of_int w * s - 1 \<le> of_int nw \<and> of_int nw \<le> of_int w * s \<and>
           of_int h * s - 1 \<le> of_int nh \<and> of_int nh \<le> of_int h * s"
proof -
  note fin = calculate_resize_finite [OF r]
  note sp = scale_props [OF pos fin bound(1,3), folded s_def]
  from r calculate_resize_float [OF pos fin bound, folded s_def]
  have nw: "nw = py_int (fl (fl (of_int w) * fl s))" and nh: "nh = py_int (fl (fl (of_int h) * fl s))"
    by simp_all
  note dw = resized_dim [OF pos(1) sp(1,2,3) bound(2), folded nw]
  note dh = resized_dim [OF pos(2) sp(1,2,4) bound(4), folded nh]
  show "nw = \<lfloor>fl (fl (of_int w) * fl s)\<rfloor>" by (rule dw(7))
  show "nh = \<lfloor>fl (fl (of_int h) * fl s)\<rfloor>" by (rule dh(7))
  show "0 \<le> nw" "nw \<le> W" "nw \<le> w" by (rule dw(1) dw(2) dw(3))+
  show "0 \<le> nh" "nh \<le> H" "nh \<le> h" by (rule dh(1) dh(2) dh(3))+
  show "\<bar>fl (fl (of_int w) * fl s) - of_int w * s\<bar> \<le> 1 / 2 ^ 41" by (rule dw(6))
  show "\<bar>fl (fl (of_int h) * fl s) - of_int h * s\<bar> \<le> 1 / 2 ^ 41" by (rule dh(6))
  show "of_int w * s - 1 - 1 / 2 ^ 41 < of_int nw" "of_int nw \<le> of_int w * s + 1 / 2 ^ 41"
    by (rule dw(4) dw(5))+
  show "of_int h * s - 1 - 1 / 2 ^ 41 < of_int nh" "of_int nh \<le> of_int h * s + 1 / 2 ^ 41"
    by (rule dh(4) dh(5))+
  show "w < 2 ^ 31 \<and> h < 2 ^ 31 \<longrightarrow>
           of_int w * s - 1 \<le> of_int nw \<and> of_int nw \<le> of_int w * s \<and>
           of_int h * s - 1 \<le> of_int nh \<and> of_int nh \<le> of_int h * s"
  proof (intro impI)
    assume "w < 2 ^ 31 \<and> h < 2 ^ 31"
    then have lt: "w < 2 ^ 31" "h < 2 ^ 31" by simp_all
    from scaled_is_ratio [OF pos lt, of w W H, folded s_def]
    obtain A B where B: "0 < B" "B < 2 ^ 31" and e: "of_int w * s = (of_int A / of_int B :: real)"
      by blast
    note a = floor_near_ratio [OF B dw(6) [unfolded e], folded e dw(7)]
    from scaled_is_ratio [OF pos lt, of h W H, folded s_def]
    obtain A' B' where B': "0 < B'" "B' < 2 ^ 31" and e': "of_int h * s = (of_int A' / of_int B' :: real)"
      by blast
    note b = floor_near_ratio [OF B' dh(6) [unfolded e'], folded e' dh(7)]
    from a b show "of_int w * s - 1 \<le> of_int nw \<and> of_int nw \<le> of_int w * s \<and>
           of_int h * s - 1 \<le> of_int nh \<and> of_int nh \<le> of_int h * s"
      by (intro conjI)
  qed
qed

section \<open>A crop of 400 by 562 pixels\<close>

lemma rne_unique:
  assumes "\<bar>y - of_int m\<bar> < 1 / 2"
  shows "rne y = m"
proof -
  from rne_close [of y] assms have "\<bar>(of_int (rne y) :: real) - of_int m\<bar> < 1"
    by linarith
  then have "\<bar>(of_int (rne y - m) :: real)\<bar> < of_int 1" by simp
  then have "\<bar>rne y - m\<bar> < 1" by (simp only: of_int_abs [symmetric] of_int_less_iff)
  then show ?thesis by simp
qed

lemma fl_evalI:
  assumes "2 powi e \<le> \<bar>x\<bar>" "\<bar>x\<bar> < 2 powi (e + 1)" "- 1022 \<le> e"
    and "\<bar>x / 2 powi (e - 52) - of_int m\<bar> < 1 / 2"
  shows "fl x = of_int m * 2 powi (e - 52)"
  by (simp only: fl_eval [OF assms(1-3)] rne_unique [OF assms(4)])

lemma fl_150_281: "fl (150 / 281) = 4808113481178465 / 2 ^ 53"
  using fl_evalI [of "- 1" "150 / 281" 4808113481178465] by (simp add: power_int_minus)

lemma fl_75_281: "fl (75 / 281) = 4808113481178465 / 2 ^ 54"
  using fl_evalI [of "- 2" "75 / 281" 4808113481178465] by (simp add: power_int_minus)

lemma fl_product_400_medium:
  "fl (fl (of_int 400) * fl (150 / 281)) = 7512677314341352 / 2 ^ 45"
  using fl_evalI [of 7 "400 * (4808113481178465 / 2 ^ 53)" 7512677314341352]
  by (simp add: fl_numeral fl_150_281 power_int_minus)

lemma fl_product_562_medium:
  "fl (fl (of_int 562) * fl (150 / 281)) = 5277655813324799 / 2 ^ 44"
  using fl_evalI [of 8 "562 * (4808113481178465 / 2 ^ 53)" 5277655813324799]
  by (simp add: fl_numeral fl_150_281 power_int_minus)

lemma fl_product_400_thumb:
  "fl (fl (of_int 400) * fl (75 / 281)) = 7512677314341352 / 2 ^ 46"
  using fl_evalI [of 6 "400 * (4808113481178465 / 2 ^ 54)" 7512677314341352]
  by (simp add: fl_numeral fl_75_281 power_int_minus)

lemma fl_product_562_thumb:
  "fl (fl (of_int 562) * fl (75 / 281)) = 5277655813324799 / 2 ^ 45"
  using fl_evalI [of 7 "562 * (4808113481178465 / 2 ^ 54)" 5277655813324799]
  by (simp add: fl_numeral fl_75_281 power_int_minus)

lemma calculate_resize_400_562_medium: "calculate_resize (400, 562) (400, 300) = Inr (213, 299)"
proof -
  have s: "min (of_int 400 / of_int 400) (min (of_int 300 / of_int 562) 1) = (150 / 281 :: real)"
    by simp
  have "calculate_resize (400, 562) (400, 300) =
          Inr (py_int (fl (fl (of_int 400) *
                 fl (min (of_int 400 / of_int 400) (min (of_int 300 / of_int 562) 1)))),
               py_int (fl (fl (of_int 562) *
                 fl (min (of_int 400 / of_int 400) (min (of_int 300 / of_int 562) 1)))))"
    by (rule calculate_resize_float) (simp_all add: finite_double_numeral)
  also have "\<dots> = Inr (213, 299)"
    unfolding s fl_product_400_medium fl_product_562_medium by (simp add: py_int_def)
  finally show ?thesis .
qed

lemma calculate_resize_400_562_thumb: "calculate_resize (400, 562) (200, 150) = Inr (106, 149)"
proof -
  have s: "min (of_int 200 / of_int 400) (min (of_int 150 / of_int 562) 1) = (75 / 281 :: real)"
    by simp
  have "calculate_resize (400, 562) (200, 150) =
          Inr (py_int (fl (fl (of_int 400) *
                 fl (min (of_int 200 / of_int 400) (min (of_int 150 / of_int 562) 1)))),
               py_int (fl (fl (of_int 562) *
                 fl (min (of_int 200 / of_int 400) (min (of_int 150 / of_int 562) 1)))))"
    by (rule calculate_resize_float) (simp_all add: finite_double_numeral)
  also have "\<dots> = Inr (106, 149)"
    unfolding s fl_product_400_thumb fl_product_562_thumb by (simp add: py_int_def)
  finally show ?thesis .
qed



section \<open>Evaluation on concrete inputs\<close>

lemma digits_small: "n < 10 \<Longrightarrow> digits n = [digit_char n]"
  by (simp add: digits.simps)

lemma digits_big: "\<not> n < 10 \<Longrightarrow> digits n = digits (n div 10) @ [digit_char (n mod 10)]"
  by (subst digits.simps) simp

lemma replicate_numeral: "replicate (numeral k) x = x # replicate (pred_numeral k) x"
  by (simp add: numeral_eq_Suc)

lemmas id_eval = format_section_id_def str_lower_def lower_char_def ascii_uppercase_def
  ascii_lowercase_def ascii_digits_def str_replace_char_def format_04d_def
  zfill_def digit_char_def digits_small digits_big replicate_numeral

lemmas load_eval = load_annotation_file_def validate_annotation_def required_fields_def
  required_section_fields_def find_matching_screenshot_def init_processor_def

lemmas crop_eval = crop_sections_def process_annotation_def process_annotation_body_def
  process_section_def generate_section_id_def crop_section_image_def crop_section_image_body_def
  crop_clamped_def clamp_coords_def read_coords_def save_derivatives_def pil_then_def
  calculate_resize_def py_truediv_def py_int_of_product_def py_int_def fl_numeral fl_one
  finite_double_numeral finite_double_one fl_numeral_half finite_double_numeral_half
  catalog_section_def add_metadata_def defaultdict_append_def
  processing_failed_def source_image_or_unknown_def path_name_def cropped_files_json_def
  dimensions_json_def full_path_def medium_path_def thumb_path_def

lemmas demo_eval = demo_world_def demo_section_def demo_annotation_def

lemmas run_eval = demo_run_def load_eval demo_eval crop_eval id_eval Let_def

section \<open>The claims\<close>

text \<open>
  C7. An annotation record that lacks one of the top-level fields \<^verbatim>\<open>source_image\<close>,
  \<^verbatim>\<open>image_dimensions\<close>, \<^verbatim>\<open>sections\<close>, or that has a section without \<^verbatim>\<open>id\<close>,
  \<^verbatim>\<open>type\<close> or \<^verbatim>\<open>coordinates\<close>, appends exactly one entry to the error log and
  changes nothing else; the records after it are loaded as they are without it; and the
  catalog of the run is the catalog of the run without the record, so that the record
  contributes no entry.
\<close>

theorem record_lacking_field_is_skipped:
  assumes "lacks_required_field annotation"
  shows "(\<exists>entry. \<forall>st. load_annotation_file w (file_name, Inr annotation) st =
                        st\<lparr>errors := errors st @ [entry]\<rparr>) \<and>
         annotations (load_annotations w (before @ (file_name, Inr annotation) # after) init_processor) =
           annotations (load_annotations w (before @ after) init_processor) \<and>
         length (errors (load_annotations w (before @ (file_name, Inr annotation) # after) init_processor)) =
           Suc (length (errors (load_annotations w (before @ after) init_processor))) \<and>
         sections_catalog (crop_sections w
             (load_annotations w (before @ (file_name, Inr annotation) # after) init_processor)) =
           sections_catalog (crop_sections w (load_annotations w (before @ after) init_processor))"
proof -
  let ?bad = "(file_name, Inr annotation)"
  let ?with = "load_annotations w (before @ ?bad # after) init_processor"
  let ?without = "load_annotations w (before @ after) init_processor"
  from lacking_not_admitted [OF assms, of w file_name]
  obtain e where e: "file_result w ?bad = ([], [e])" by blast
  have one: "\<forall>st. load_annotation_file w ?bad st = st\<lparr>errors := errors st @ [e]\<rparr>"
    by (simp add: load_annotation_file_admit e admit_def)
  have anns: "annotations ?with = annotations ?without"
    by (simp add: load_annotations_admit admit_fields e)
  have errs: "length (errors ?with) = Suc (length (errors ?without))"
    by (simp add: load_annotations_admit admit_fields e)
  have "same_catalog (?with, 1) (?without, 1)"
    by (simp add: same_catalog_def load_annotations_admit admit_fields)
  from crop_annotations_same [OF this, of w "annotations ?without"]
  have "sections_catalog (crop_sections w ?with) = sections_catalog (crop_sections w ?without)"
    by (simp add: crop_sections_def anns same_catalog_def)
  with one anns errs show ?thesis by blast
qed

theorem record_lacking_field_is_skipped_witness:
  "lacks_required_field (JObj [(''source_image'', JStr ''s1.png''), (''sections'', JList [])]) \<and>
   ((\<exists>entry. \<forall>st.
        load_annotation_file demo_world
          (''annotations_a.json'',
           Inr (JObj [(''source_image'', JStr ''s1.png''), (''sections'', JList [])])) st =
        st\<lparr>errors := errors st @ [entry]\<rparr>) \<and>
    annotations (load_annotations demo_world
        ([] @ (''annotations_a.json'',
               Inr (JObj [(''source_image'', JStr ''s1.png''), (''sections'', JList [])])) #
           [(''annotations_b.json'', Inr (demo_annotation [demo_section ''a'' ''hero'' 0 0 100 100]))])
        init_processor) =
      annotations (load_annotations demo_world
        ([] @ [(''annotations_b.json'', Inr (demo_annotation [demo_section ''a'' ''hero'' 0 0 100 100]))])
        init_processor) \<and>
    length (errors (load_annotations demo_world
        ([] @ (''annotations_a.json'',
               Inr (JObj [(''source_image'', JStr ''s1.png''), (''sections'', JList [])])) #
           [(''annotations_b.json'', Inr (demo_annotation [demo_section ''a'' ''hero'' 0 0 100 100]))])
        init_processor)) =
      Suc (length (errors (load_annotations demo_world
        ([] @ [(''annotations_b.json'', Inr (demo_annotation [demo_section ''a'' ''hero'' 0 0 100 100]))])
        init_processor))) \<and>
    sections_catalog (crop_sections demo_world (load_annotations demo_world
        ([] @ (''annotations_a.json'',
               Inr (JObj [(''source_image'', JStr ''s1.png''), (''sections'', JList [])])) #
           [(''annotations_b.json'', Inr (demo_annotation [demo_section ''a'' ''hero'' 0 0 100 100]))])
        init_processor)) =
      sections_catalog (crop_sections demo_world (load_annotations demo_world
        ([] @ [(''annotations_b.json'', Inr (demo_annotation [demo_section ''a'' ''hero'' 0 0 100 100]))])
        init_processor))) \<and>
   errors (load_annotations demo_world
      [(''annotations_a.json'',
        Inr (JObj [(''source_image'', JStr ''s1.png''), (''sections'', JList [])]))]
      init_processor) =
     [MissingRequiredField ''image_dimensions'' ''annotations_a.json'']"
proof -
  have h: "lacks_required_field (JObj [(''source_image'', JStr ''s1.png''), (''sections'', JList [])])"
    by (simp add: lacks_required_field_def required_fields_def)
  have e: "errors (load_annotations demo_world
      [(''annotations_a.json'',
        Inr (JObj [(''source_image'', JStr ''s1.png''), (''sections'', JList [])]))]
      init_processor) =
     [MissingRequiredField ''image_dimensions'' ''annotations_a.json'']"
    by (simp add: load_eval)
  show ?thesis
    by (rule conjI [OF h conjI [OF record_lacking_field_is_skipped [OF h] e]])
qed



text \<open>
  C6. When a crop of size \<open>width\<close> by \<open>height\<close> is saved, the medium size and the
  thumbnail size recorded for it are both computed by \<^const>\<open>calculate_resize\<close> from the
  size of the crop, for the bounds (400, 300) and (200, 150). With \<open>ms\<close> and \<open>ts\<close> the
  exact scales \<open>min (target_w / width, target_h / height, 1)\<close>, the scale the code uses is
  that number rounded to a float, and each new dimension is the float product of the
  dimension and the scale, rounded down. Each new dimension is within its bound, no
  larger than the crop's, and at most one pixel and the rounding error of the product
  (below \<open>1 / 2 ^ 41\<close>) away from the exactly scaled dimension; for a crop of less than
  \<open>2 ^ 31\<close> pixels each way it lies between the exactly scaled dimension minus one and
  the exactly scaled dimension. The medium image and the thumbnail are both resized from
  the crop itself: the four library calls that resized the crop to each size and saved
  the results were made and did not raise.
\<close>

theorem derivative_sizes_are_bounded:
  assumes "crop_clamped w section_id section_type (x, y, width, height) = Inr (Some d)"
  defines "base \<equiv> section_id @ ''_'' @ section_type"
      and "crop \<equiv> Cropped (x, y, x + width, y + height)"
      and "ms \<equiv> min (400 / real_of_int width) (min (300 / real_of_int height) 1)"
      and "ts \<equiv> min (200 / real_of_int width) (min (150 / real_of_int height) 1)"
  shows "\<exists>mw mh tw th.
           d = cropped_files_json base (width, height) (mw, mh) (tw, th) \<and>
           calculate_resize (width, height) (400, 300) = Inr (mw, mh) \<and>
           calculate_resize (width, height) (200, 150) = Inr (tw, th) \<and>
           mw = \<lfloor>fl (fl (of_int width) * fl ms)\<rfloor> \<and> mh = \<lfloor>fl (fl (of_int height) * fl ms)\<rfloor> \<and>
           tw = \<lfloor>fl (fl (of_int width) * fl ts)\<rfloor> \<and> th = \<lfloor>fl (fl (of_int height) * fl ts)\<rfloor> \<and>
           0 \<le> mw \<and> 0 \<le> mh \<and> 0 \<le> tw \<and> 0 \<le> th \<and>
           mw \<le> 400 \<and> mh \<le> 300 \<and> tw \<le> 200 \<and> th \<le> 150 \<and>
           mw \<le> width \<and> mh \<le> height \<and> tw \<le> width \<and> th \<le> height \<and>
           of_int width * ms - 1 - 1 / 2 ^ 41 < of_int mw \<and> of_int mw \<le> of_int width * ms + 1 / 2 ^ 41 \<and>
           of_int height * ms - 1 - 1 / 2 ^ 41 < of_int mh \<and> of_int mh \<le> of_int height * ms + 1 / 2 ^ 41 \<and>
           of_int width * ts - 1 - 1 / 2 ^ 41 < of_int tw \<and> of_int tw \<le> of_int width * ts + 1 / 2 ^ 41 \<and>
           of_int height * ts - 1 - 1 / 2 ^ 41 < of_int th \<and> of_int th \<le> of_int height * ts + 1 / 2 ^ 41 \<and>
           (width < 2 ^ 31 \<and> height < 2 ^ 31 \<longrightarrow>
              of_int width * ms - 1 \<le> of_int mw \<and> of_int mw \<le> of_int width * ms \<and>
              of_int height * ms - 1 \<le> of_int mh \<and> of_int mh \<le> of_int height * ms) \<and>
           (width < 2 ^ 31 \<and> height < 2 ^ 31 \<longrightarrow>
              of_int width * ts - 1 \<le> of_int tw \<and> of_int tw \<le> of_int width * ts \<and>
              of_int height * ts - 1 \<le> of_int th \<and> of_int th \<le> of_int height * ts) \<and>
           pil_raises w section_id (PilResize crop (mw, mh)) = None \<and>
           pil_raises w section_id (PilSave (Resized crop (mw, mh)) (medium_path base)) = None \<and>
           pil_raises w section_id (PilResize crop (tw, th)) = None \<and>
           pil_raises w section_id (PilSave (Resized crop (tw, th)) (thumb_path base)) = None"
proof -
  from assms(1) have pos: "0 < width" "0 < height"
    by (auto simp: crop_clamped_def Let_def split: if_splits)
  from assms(1) pos obtain sizes where
    sd: "save_derivatives w section_id base (x, y, x + width, y + height) (width, height) = Inr sizes"
    and d: "d = cropped_files_json base (width, height) (fst sizes) (snd sizes)"
    by (auto simp: crop_clamped_def Let_def base_def split: sum.splits)
  obtain mw mh tw th where sz: "sizes = ((mw, mh), (tw, th))"
    by (metis surj_pair)
  from sd have m: "calculate_resize (width, height) (400, 300) = Inr (mw, mh)"
    and t: "calculate_resize (width, height) (200, 150) = Inr (tw, th)"
    and p1: "pil_raises w section_id (PilResize crop (mw, mh)) = None"
    and p2: "pil_raises w section_id (PilSave (Resized crop (mw, mh)) (medium_path base)) = None"
    and p3: "pil_raises w section_id (PilResize crop (tw, th)) = None"
    and p4: "pil_raises w section_id (PilSave (Resized crop (tw, th)) (thumb_path base)) = None"
    by (auto simp: save_derivatives_def pil_then_def sz crop_def split: option.splits sum.splits)
  have d': "d = cropped_files_json base (width, height) (mw, mh) (tw, th)"
    using d by (simp add: sz)
  have b4: "(4 :: int) \<le> 400" "(400 :: int) \<le> 1024" "(4 :: int) \<le> 300" "(300 :: int) \<le> 1024"
    and b2: "(4 :: int) \<le> 200" "(200 :: int) \<le> 1024" "(4 :: int) \<le> 150" "(150 :: int) \<le> 1024"
    by simp_all
  note a = calculate_resize_spec [OF m pos b4, unfolded of_int_numeral, folded ms_def]
  note b = calculate_resize_spec [OF t pos b2, unfolded of_int_numeral, folded ts_def]
  show ?thesis
    apply (rule exI [of _ mw], rule exI [of _ mh], rule exI [of _ tw], rule exI [of _ th])
    using d' m t a(1,2) b(1,2) a(3,4) b(3,4) a(5,6) b(5,6) a(7,8) b(7,8)
      a(11,12,13,14) b(11,12,13,14) a(15) b(15) p1 p2 p3 p4
    by (intro conjI)
qed

theorem derivative_sizes_are_bounded_witness:
  "crop_clamped demo_world ''hero_0001'' ''hero'' (0, 0, 400, 562) =
     Inr (Some (cropped_files_json (''hero_0001'' @ ''_'' @ ''hero'') (400, 562) (213, 299) (106, 149))) \<and>
   calculate_resize (400, 562) (400, 300) = Inr (213, 299) \<and>
   calculate_resize (400, 562) (200, 150) = Inr (106, 149) \<and>
   (400 :: int) < 2 ^ 31 \<and> (562 :: int) < 2 ^ 31 \<and>
   real_of_int 562 * min (400 / real_of_int 400) (min (300 / real_of_int 562) 1) = 300 \<and>
   real_of_int 562 * min (400 / real_of_int 400) (min (300 / real_of_int 562) 1) - 1 \<le> real_of_int 299 \<and>
   real_of_int 299 \<le> real_of_int 562 * min (400 / real_of_int 400) (min (300 / real_of_int 562) 1) \<and>
   real_of_int 562 * min (200 / real_of_int 400) (min (150 / real_of_int 562) 1) - 1 \<le> real_of_int 149 \<and>
   real_of_int 149 \<le> real_of_int 562 * min (200 / real_of_int 400) (min (150 / real_of_int 562) 1) \<and>
   (213 :: int) \<le> 400 \<and> (299 :: int) \<le> 300 \<and> (106 :: int) \<le> 200 \<and> (149 :: int) \<le> 150 \<and>
   pil_raises demo_world ''hero_0001'' (PilResize (Cropped (0, 0, 0 + 400, 0 + 562)) (106, 149)) = None"
proof -
  have c: "crop_clamped demo_world ''hero_0001'' ''hero'' (0, 0, 400, 562) =
     Inr (Some (cropped_files_json (''hero_0001'' @ ''_'' @ ''hero'') (400, 562) (213, 299) (106, 149)))"
    by (simp add: crop_clamped_def save_derivatives_def pil_then_def demo_world_def
        calculate_resize_400_562_medium calculate_resize_400_562_thumb)
  have lt: "(400 :: int) < 2 ^ 31 \<and> (562 :: int) < 2 ^ 31" by simp
  have e: "real_of_int 562 * min (400 / real_of_int 400) (min (300 / real_of_int 562) 1) = 300"
    by simp
  from derivative_sizes_are_bounded [OF c]
  obtain mw mh tw th where
    j: "cropped_files_json (''hero_0001'' @ ''_'' @ ''hero'') (400, 562) (213, 299) (106, 149) =
     cropped_files_json (''hero_0001'' @ ''_'' @ ''hero'') (400, 562) (mw, mh) (tw, th)"
    and r: "calculate_resize (400, 562) (400, 300) = Inr (mw, mh)"
      "calculate_resize (400, 562) (200, 150) = Inr (tw, th)"
    and b: "mw \<le> 400" "mh \<le> 300" "tw \<le> 200" "th \<le> 150"
    and m: "(400 :: int) < 2 ^ 31 \<and> (562 :: int) < 2 ^ 31 \<longrightarrow>
        real_of_int 400 * min (400 / real_of_int 400) (min (300 / real_of_int 562) 1) - 1 \<le> real_of_int mw \<and>
        real_of_int mw \<le> real_of_int 400 * min (400 / real_of_int 400) (min (300 / real_of_int 562) 1) \<and>
        real_of_int 562 * min (400 / real_of_int 400) (min (300 / real_of_int 562) 1) - 1 \<le> real_of_int mh \<and>
        real_of_int mh \<le> real_of_int 562 * min (400 / real_of_int 400) (min (300 / real_of_int 562) 1)"
    and t: "(400 :: int) < 2 ^ 31 \<and> (562 :: int) < 2 ^ 31 \<longrightarrow>
        real_of_int 400 * min (200 / real_of_int 400) (min (150 / real_of_int 562) 1) - 1 \<le> real_of_int tw \<and>
        real_of_int tw \<le> real_of_int 400 * min (200 / real_of_int 400) (min (150 / real_of_int 562) 1) \<and>
        real_of_int 562 * min (200 / real_of_int 400) (min (150 / real_of_int 562) 1) - 1 \<le> real_of_int th \<and>
        real_of_int th \<le> real_of_int 562 * min (200 / real_of_int 400) (min (150 / real_of_int 562) 1)"
    and p: "pil_raises demo_world ''hero_0001'' (PilResize (Cropped (0, 0, 0 + 400, 0 + 562)) (tw, th)) = None"
    by blast
  from j have v: "mw = 213" "mh = 299" "tw = 106" "th = 149"
    by (simp_all add: cropped_files_json_def dimensions_json_def)
  from m lt have m': "real_of_int 562 * min (400 / real_of_int 400) (min (300 / real_of_int 562) 1) - 1 \<le> real_of_int 299"
    "real_of_int 299 \<le> real_of_int 562 * min (400 / real_of_int 400) (min (300 / real_of_int 562) 1)"
    unfolding v by blast+
  from t lt have t': "real_of_int 562 * min (200 / real_of_int 400) (min (150 / real_of_int 562) 1) - 1 \<le> real_of_int 149"
    "real_of_int 149 \<le> real_of_int 562 * min (200 / real_of_int 400) (min (150 / real_of_int 562) 1)"
    unfolding v by blast+
  from c r [unfolded v] lt [THEN conjunct1] lt [THEN conjunct2] e m' t' b [unfolded v] p [unfolded v]
  show ?thesis by (intro conjI)
qed

text \<open>
  C9. The counter advances only when a crop succeeds. In a run that starts with an empty
  catalog, the section at position \<open>n\<close> of the flat catalog (counted from 0) carries the
  sequence number \<open>n + 1\<close>, whatever sections were dropped before it, and the counter
  ends at one more than the number of cataloged sections.
\<close>

theorem sequence_numbers_have_no_gaps:
  assumes "sections_catalog st = []" "section_types st = []"
    and "n < length (sections_catalog (crop_sections w st))"
  shows "(\<exists>t. py_getitem (sections_catalog (crop_sections w st) ! n) ''type'' = Inr (JStr t) \<and>
              py_getitem (sections_catalog (crop_sections w st) ! n) ''unique_id'' =
                Inr (JStr (format_section_id t (int n + 1)))) \<and>
         snd (crop_annotations w (annotations st) (st, 1)) =
           1 + int (length (sections_catalog (crop_sections w st)))"
proof -
  from crop_sections_inv [OF assms(1,2), of w]
  have inv: "catalog_inv w (crop_annotations w (annotations st) (st, 1))" .
  with assms(3) have "entry_from w (sections_catalog (crop_sections w st) ! n) (int n + 1)"
    by (simp add: catalog_inv_def crop_sections_def)
  then have "entry_ok (sections_catalog (crop_sections w st) ! n) (int n + 1)"
    by (rule entry_from_ok)
  with inv show ?thesis
    by (simp add: entry_ok_def catalog_inv_def crop_sections_def)
qed

theorem sequence_numbers_have_no_gaps_witness:
  "sections_catalog (load_annotations demo_world
      [(''annotations_s1.json'', Inr (demo_annotation
          [demo_section ''a'' ''hero'' 0 0 100 100, demo_section ''b'' ''hero'' 5000 0 100 100,
           demo_section ''c'' ''footer'' 0 1900 100 100]))] init_processor) = [] \<and>
   section_types (load_annotations demo_world
      [(''annotations_s1.json'', Inr (demo_annotation
          [demo_section ''a'' ''hero'' 0 0 100 100, demo_section ''b'' ''hero'' 5000 0 100 100,
           demo_section ''c'' ''footer'' 0 1900 100 100]))] init_processor) = [] \<and>
   1 < length (sections_catalog (demo_run
          [[demo_section ''a'' ''hero'' 0 0 100 100, demo_section ''b'' ''hero'' 5000 0 100 100,
            demo_section ''c'' ''footer'' 0 1900 100 100]])) \<and>
   map (\<lambda>s. (py_getitem s ''id'', py_getitem s ''type'')) (sections_catalog (demo_run
          [[demo_section ''a'' ''hero'' 0 0 100 100, demo_section ''b'' ''hero'' 5000 0 100 100,
            demo_section ''c'' ''footer'' 0 1900 100 100]])) =
     [(Inr (JStr ''a''), Inr (JStr ''hero'')), (Inr (JStr ''c''), Inr (JStr ''footer''))] \<and>
   py_getitem (sections_catalog (demo_run
          [[demo_section ''a'' ''hero'' 0 0 100 100, demo_section ''b'' ''hero'' 5000 0 100 100,
            demo_section ''c'' ''footer'' 0 1900 100 100]]) ! 1) ''unique_id'' =
     Inr (JStr ''footer_0002'') \<and>
   snd (crop_annotations demo_world
          (annotations (load_annotations demo_world
            [(''annotations_s1.json'', Inr (demo_annotation
              [demo_section ''a'' ''hero'' 0 0 100 100, demo_section ''b'' ''hero'' 5000 0 100 100,
               demo_section ''c'' ''footer'' 0 1900 100 100]))] init_processor))
          (load_annotations demo_world
            [(''annotations_s1.json'', Inr (demo_annotation
              [demo_section ''a'' ''hero'' 0 0 100 100, demo_section ''b'' ''hero'' 5000 0 100 100,
               demo_section ''c'' ''footer'' 0 1900 100 100]))] init_processor, 1)) = 3"
proof -
  let ?files = "[(''annotations_s1.json'', Inr (demo_annotation
          [demo_section ''a'' ''hero'' 0 0 100 100, demo_section ''b'' ''hero'' 5000 0 100 100,
           demo_section ''c'' ''footer'' 0 1900 100 100]))]"
  let ?st = "load_annotations demo_world ?files init_processor"
  let ?run = "demo_run [[demo_section ''a'' ''hero'' 0 0 100 100, demo_section ''b'' ''hero'' 5000 0 100 100,
            demo_section ''c'' ''footer'' 0 1900 100 100]]"
  have run: "?run = crop_sections demo_world ?st"
    by (simp add: demo_run_def)
  have e1: "sections_catalog ?st = []" and e2: "section_types ?st = []"
    by (rule loaded_catalog_empty)+
  have ev: "map (\<lambda>s. (py_getitem s ''id'', py_getitem s ''type'')) (sections_catalog ?run) =
     [(Inr (JStr ''a''), Inr (JStr ''hero'')), (Inr (JStr ''c''), Inr (JStr ''footer''))]"
    by (simp add: run_eval)
  from arg_cong [OF ev, of length] have len2: "length (sections_catalog ?run) = 2"
    by simp
  then have len: "1 < length (sections_catalog ?run)"
    by simp
  from arg_cong [OF ev, of "\<lambda>xs. snd (xs ! 1)"] len
  have ty: "py_getitem (sections_catalog ?run ! 1) ''type'' = Inr (JStr ''footer'')"
    by simp
  from sequence_numbers_have_no_gaps [OF e1 e2, of 1 demo_world] len run
  obtain t where t: "py_getitem (sections_catalog ?run ! 1) ''type'' = Inr (JStr t)"
    and u: "py_getitem (sections_catalog ?run ! 1) ''unique_id'' =
              Inr (JStr (format_section_id t (int 1 + 1)))"
    and c: "snd (crop_annotations demo_world (annotations ?st) (?st, 1)) =
              1 + int (length (sections_catalog ?run))"
    by auto
  from t ty have "t = ''footer''" by simp
  moreover have "format_section_id ''footer'' 2 = ''footer_0002''"
    by (simp add: id_eval)
  ultimately have uid: "py_getitem (sections_catalog ?run ! 1) ''unique_id'' = Inr (JStr ''footer_0002'')"
    using u by simp
  from c len2 have "snd (crop_annotations demo_world (annotations ?st) (?st, 1)) = 3"
    by simp
  with e1 e2 len ev uid show ?thesis by (intro conjI)
qed

text \<open>
  C4. The counter is one sequence for all sections of all annotations of a run: an
  annotation never lowers it, processing a list of annotations hands the counter left by
  one annotation to the next, and it does not depend on the type. In the run of an
  annotation with two \<^verbatim>\<open>hero\<close> sections followed by an annotation with a
  \<^verbatim>\<open>footer\<close> section, the identifiers are \<^verbatim>\<open>hero_0001\<close>, \<^verbatim>\<open>hero_0002\<close> and
  \<^verbatim>\<open>footer_0003\<close>.
\<close>

theorem counter_is_shared_across_annotations:
  "snd sc \<le> snd (process_annotation w annotation sc) \<and>
   crop_annotations w (before @ annotation # after) sc =
     crop_annotations w after (process_annotation w annotation (crop_annotations w before sc)) \<and>
   getitem_all ''unique_id'' (sections_catalog (demo_run
       [[demo_section ''a'' ''hero'' 0 0 100 100, demo_section ''b'' ''hero'' 0 100 100 100],
        [demo_section ''c'' ''footer'' 0 1900 100 100]])) =
     Inr [JStr ''hero_0001'', JStr ''hero_0002'', JStr ''footer_0003'']"
proof -
  have "getitem_all ''unique_id'' (sections_catalog (demo_run
       [[demo_section ''a'' ''hero'' 0 0 100 100, demo_section ''b'' ''hero'' 0 100 100 100],
        [demo_section ''c'' ''footer'' 0 1900 100 100]])) =
     Inr [JStr ''hero_0001'', JStr ''hero_0002'', JStr ''footer_0003'']"
    by (simp add: run_eval)
  then show ?thesis
    by (simp add: process_annotation_counter crop_annotations_append)
qed

end
